theory Spec2Isabelle
  imports Main "HOL-Library.Word"
begin

unbundle bit_operations_syntax

section \<open>Exceptions\<close>

text \<open>
  Every \<^verbatim>\<open>assert\<close>, every out-of-range index, every failing \<^verbatim>\<open>deque.remove\<close> or
  \<^verbatim>\<open>set.remove\<close> and every division by zero of the Python source is a branch that
  returns \<open>Inl\<close> of the exception raised.  An exception is never caught in the modelled
  code, so the state it leaves behind is not observable and is not returned.
\<close>

datatype error =
  AssertionError | IndexError | ValueError | KeyError | ZeroDivisionError | OverflowError

section \<open>sampling\_params.py and engine/sequence.py\<close>

text \<open>
  The \<^verbatim>\<open>temperature\<close> field (a float) is read neither by the scheduler nor by the block
  manager and is left out of both records.  Counters that the source only ever sets to a
  length, increments, or resets to zero are natural numbers; \<^verbatim>\<open>max_tokens\<close> is whatever
  integer the caller passed.
\<close>

record SamplingParams =
  max_tokens :: int
  ignore_eos :: bool

datatype SequenceStatus = WAITING | RUNNING | FINISHED

text \<open>
  \<^verbatim>\<open>Sequence.block_size\<close> is a class attribute (256 in the source) that every method
  reads through \<^verbatim>\<open>self.block_size\<close>; it is carried as a field so that the scenarios of
  the specification, which use 4, can set it.  \<^verbatim>\<open>seq_id\<close> is drawn from the class-wide
  counter.
\<close>

record Sequence =
  seq_id :: nat
  status :: SequenceStatus
  token_ids :: "int list"
  last_token :: int
  num_tokens :: nat
  num_prompt_tokens :: nat
  num_cached_tokens :: nat
  block_table :: "nat list"
  max_tokens :: int
  ignore_eos :: bool
  block_size :: nat

text \<open>\<^verbatim>\<open>Sequence.__init__\<close>: \<^verbatim>\<open>token_ids[-1]\<close> raises on an empty prompt.\<close>

definition Sequence_init :: "nat \<Rightarrow> nat \<Rightarrow> int list \<Rightarrow> SamplingParams \<Rightarrow> error + Sequence" where
  "Sequence_init counter cls_block_size toks sampling_params =
     (if toks = [] then Inl IndexError
      else Inr \<lparr>seq_id = counter, status = WAITING, token_ids = toks,
                last_token = last toks, num_tokens = length toks,
                num_prompt_tokens = length toks, num_cached_tokens = 0,
                block_table = [],
                max_tokens = SamplingParams.max_tokens sampling_params,
                ignore_eos = SamplingParams.ignore_eos sampling_params,
                block_size = cls_block_size\<rparr>)"

definition num_completion_tokens :: "Sequence \<Rightarrow> int" where
  "num_completion_tokens s = int (num_tokens s) - int (num_prompt_tokens s)"

text \<open>\<^verbatim>\<open>(num_tokens + block_size - 1) // block_size\<close>; the division raises when the block
  size is zero.\<close>

definition num_blocks :: "Sequence \<Rightarrow> error + nat" where
  "num_blocks s =
     (if Sequence.block_size s = 0 then Inl ZeroDivisionError
      else Inr ((num_tokens s + Sequence.block_size s - 1) div Sequence.block_size s))"

text \<open>\<^verbatim>\<open>block(i)\<close>: the assertion \<^verbatim>\<open>0 <= i < num_blocks\<close>, then the slice
  \<^verbatim>\<open>token_ids[i*block_size : (i+1)*block_size]\<close>.\<close>

definition block :: "Sequence \<Rightarrow> int \<Rightarrow> error + int list" where
  "block s i =
     (case num_blocks s of
        Inl e \<Rightarrow> Inl e
      | Inr n \<Rightarrow>
          if 0 \<le> i \<and> i < int n
          then Inr (take (Sequence.block_size s)
                      (drop (nat i * Sequence.block_size s) (Sequence.token_ids s)))
          else Inl AssertionError)"

definition append_token :: "Sequence \<Rightarrow> int \<Rightarrow> Sequence" where
  "append_token s token_id =
     s\<lparr>Sequence.token_ids := Sequence.token_ids s @ [token_id],
       last_token := token_id,
       num_tokens := num_tokens s + 1\<rparr>"

section \<open>engine/block\_manager.py\<close>

subsection \<open>Block\<close>

record Block =
  block_id :: nat
  ref_count :: int
  hash :: int
  token_ids :: "int list"

definition Block_init :: "nat \<Rightarrow> Block" where
  "Block_init i = \<lparr>block_id = i, ref_count = 0, hash = - 1, token_ids = []\<rparr>"

definition update :: "Block \<Rightarrow> int \<Rightarrow> int list \<Rightarrow> Block" where
  "update b h toks = b\<lparr>hash := h, Block.token_ids := toks\<rparr>"

definition reset :: "Block \<Rightarrow> Block" where
  "reset b = b\<lparr>ref_count := 1, hash := - 1, Block.token_ids := []\<rparr>"

subsection \<open>The hash of a block\<close>

text \<open>
  \<^verbatim>\<open>compute_hash\<close> feeds an \<^verbatim>\<open>xxhash.xxh64()\<close> hasher first the 8 little-endian bytes
  of the prefix (unless the prefix is \<open>-1\<close>) and then \<^verbatim>\<open>np.array(token_ids).tobytes()\<close>,
  and returns \<^verbatim>\<open>intdigest()\<close>.  The hasher belongs to the external xxhash library: it is
  the parameter \<open>xxh64\<close>, a function from the bytes fed to the 64-bit digest, of every
  definition below.  Feeding two byte strings in turn is hashing their concatenation.
  \<^verbatim>\<open>int.to_bytes(8, "little")\<close> raises \<^verbatim>\<open>OverflowError\<close> outside \<open>0 \<le> n < 2^64\<close>.
  \<^verbatim>\<open>tobytes\<close> is modelled for token ids that numpy stores as int64 (its default integer
  type): eight little-endian bytes, two's complement, per token.  A list with a token id
  outside \<open>-2^63 \<le> t < 2^63\<close> is stored by numpy in another type, and its bytes are not the
  ones given here; no statement below evaluates \<^verbatim>\<open>tobytes\<close> on such a list, and the call
  returns in either case.
\<close>

type_synonym digest = "8 word list \<Rightarrow> 64 word"

definition le_bytes :: "64 word \<Rightarrow> 8 word list" where
  "le_bytes w = map (\<lambda>k. ucast (drop_bit (8 * k) w)) [0..<8]"

definition to_bytes :: "int \<Rightarrow> error + 8 word list" where
  "to_bytes n =
     (if 0 \<le> n \<and> n < 2 ^ 64 then Inr (le_bytes (word_of_int n)) else Inl OverflowError)"

definition tobytes :: "int list \<Rightarrow> 8 word list" where
  "tobytes toks = concat (map (\<lambda>t. le_bytes (word_of_int t)) toks)"

definition compute_hash :: "digest \<Rightarrow> int list \<Rightarrow> int \<Rightarrow> error + int" where
  "compute_hash xxh64 toks prefix =
     (if prefix \<noteq> - 1
      then (case to_bytes prefix of
              Inl e \<Rightarrow> Inl e
            | Inr p \<Rightarrow> Inr (uint (xxh64 (p @ tobytes toks))))
      else Inr (uint (xxh64 (tobytes toks))))"

subsection \<open>XXH64\<close>

text \<open>
  The closed examples below need a concrete hasher.  \<open>XXH64\<close> is the 64-bit xxHash of
  the xxhash library with seed 0, which is what \<^verbatim>\<open>xxhash.xxh64()\<close> computes, written
  from the algorithm's published description: four accumulators over 32-byte stripes,
  their merge, the tail in steps of 8, 4 and 1 bytes, and the final avalanche.
\<close>

definition PRIME64_1 :: "64 word" where "PRIME64_1 = 0x9E3779B185EBCA87"
definition PRIME64_2 :: "64 word" where "PRIME64_2 = 0xC2B2AE3D27D4EB4F"
definition PRIME64_3 :: "64 word" where "PRIME64_3 = 0x165667B19E3779F9"
definition PRIME64_4 :: "64 word" where "PRIME64_4 = 0x85EBCA77C2B2AE63"
definition PRIME64_5 :: "64 word" where "PRIME64_5 = 0x27D4EB2F165667C5"

definition rotl64 :: "64 word \<Rightarrow> nat \<Rightarrow> 64 word" where
  "rotl64 x r = push_bit r x OR drop_bit (64 - r) x"

definition xxh_round :: "64 word \<Rightarrow> 64 word \<Rightarrow> 64 word" where
  "xxh_round acc inp = rotl64 (acc + inp * PRIME64_2) 31 * PRIME64_1"

definition xxh_merge_round :: "64 word \<Rightarrow> 64 word \<Rightarrow> 64 word" where
  "xxh_merge_round acc v = (acc XOR xxh_round 0 v) * PRIME64_1 + PRIME64_4"

fun read_le :: "8 word list \<Rightarrow> 64 word" where
  "read_le [] = 0"
| "read_le (b # bs) = ucast b OR push_bit 8 (read_le bs)"

fun xxh_stripes ::
  "8 word list \<Rightarrow> 64 word \<times> 64 word \<times> 64 word \<times> 64 word
     \<Rightarrow> (64 word \<times> 64 word \<times> 64 word \<times> 64 word) \<times> 8 word list" where
  "xxh_stripes bs (v1, v2, v3, v4) =
     (if length bs < 32 then ((v1, v2, v3, v4), bs)
      else xxh_stripes (drop 32 bs)
             (xxh_round v1 (read_le (take 8 bs)),
              xxh_round v2 (read_le (take 8 (drop 8 bs))),
              xxh_round v3 (read_le (take 8 (drop 16 bs))),
              xxh_round v4 (read_le (take 8 (drop 24 bs)))))"

fun xxh_tail8 :: "8 word list \<Rightarrow> 64 word \<Rightarrow> 64 word \<times> 8 word list" where
  "xxh_tail8 bs h =
     (if length bs < 8 then (h, bs)
      else xxh_tail8 (drop 8 bs)
             (rotl64 (h XOR xxh_round 0 (read_le (take 8 bs))) 27 * PRIME64_1 + PRIME64_4))"

definition xxh_tail4 :: "8 word list \<Rightarrow> 64 word \<Rightarrow> 64 word \<times> 8 word list" where
  "xxh_tail4 bs h =
     (if length bs < 4 then (h, bs)
      else (rotl64 (h XOR read_le (take 4 bs) * PRIME64_1) 23 * PRIME64_2 + PRIME64_3,
            drop 4 bs))"

fun xxh_tail1 :: "8 word list \<Rightarrow> 64 word \<Rightarrow> 64 word" where
  "xxh_tail1 [] h = h"
| "xxh_tail1 (b # bs) h = xxh_tail1 bs (rotl64 (h XOR ucast b * PRIME64_5) 11 * PRIME64_1)"

definition xxh_avalanche :: "64 word \<Rightarrow> 64 word" where
  "xxh_avalanche h =
     (let h1 = (h XOR drop_bit 33 h) * PRIME64_2;
          h2 = (h1 XOR drop_bit 29 h1) * PRIME64_3
      in h2 XOR drop_bit 32 h2)"

definition xxh_accumulate :: "8 word list \<Rightarrow> 64 word \<times> 8 word list" where
  "xxh_accumulate bs =
     (if 32 \<le> length bs
      then (case xxh_stripes bs (PRIME64_1 + PRIME64_2, PRIME64_2, 0, 0 - PRIME64_1) of
              ((v1, v2, v3, v4), rest) \<Rightarrow>
                (xxh_merge_round (xxh_merge_round (xxh_merge_round (xxh_merge_round
                   (rotl64 v1 1 + rotl64 v2 7 + rotl64 v3 12 + rotl64 v4 18) v1) v2) v3) v4,
                 rest))
      else (PRIME64_5, bs))"

definition XXH64 :: digest where
  "XXH64 bs =
     (case xxh_accumulate bs of (h, rest) \<Rightarrow>
     (case xxh_tail8 rest (h + of_nat (length bs)) of (h2, r2) \<Rightarrow>
     (case xxh_tail4 r2 h2 of (h3, r3) \<Rightarrow>
        xxh_avalanche (xxh_tail1 r3 h3))))"

subsection \<open>BlockManager\<close>

text \<open>
  Block ids are indices into \<^verbatim>\<open>blocks\<close>: natural numbers.  The dictionary
  \<^verbatim>\<open>hash_to_block_id\<close> is a partial map, and \<^verbatim>\<open>hash_to_block_id.get(h, -1)\<close> is its
  lookup, \<open>None\<close> standing for the default \<open>-1\<close>.
\<close>

record BlockManager =
  block_size :: nat
  blocks :: "Block list"
  hash_to_block_id :: "int \<rightharpoonup> nat"
  free_block_ids :: "nat list"
  used_block_ids :: "nat set"

definition BlockManager_init :: "nat \<Rightarrow> nat \<Rightarrow> error + BlockManager" where
  "BlockManager_init n bs =
     (if \<not> 0 < n then Inl AssertionError
      else Inr \<lparr>block_size = bs, blocks = map Block_init [0..<n],
                hash_to_block_id = Map.empty, free_block_ids = [0..<n],
                used_block_ids = {}\<rparr>)"

text \<open>\<^verbatim>\<open>_allocate_block\<close> (a leading underscore is not an Isabelle name).\<close>

definition allocate_block :: "BlockManager \<Rightarrow> nat \<Rightarrow> error + BlockManager" where
  "allocate_block bm b =
     (if \<not> b < length (blocks bm) then Inl IndexError
      else if ref_count (blocks bm ! b) \<noteq> 0 then Inl AssertionError
      else if b \<notin> set (free_block_ids bm) then Inl ValueError
      else Inr (bm\<lparr>blocks := (blocks bm)[b := reset (blocks bm ! b)],
                   free_block_ids := remove1 b (free_block_ids bm),
                   used_block_ids := insert b (used_block_ids bm)\<rparr>))"

text \<open>\<^verbatim>\<open>_deallocate_block\<close>.\<close>

definition deallocate_block :: "BlockManager \<Rightarrow> nat \<Rightarrow> error + BlockManager" where
  "deallocate_block bm b =
     (if \<not> b < length (blocks bm) then Inl IndexError
      else if ref_count (blocks bm ! b) \<noteq> 0 then Inl AssertionError
      else if b \<notin> used_block_ids bm then Inl KeyError
      else Inr (bm\<lparr>used_block_ids := used_block_ids bm - {b},
                   free_block_ids := free_block_ids bm @ [b]\<rparr>))"

definition can_allocate :: "BlockManager \<Rightarrow> Sequence \<Rightarrow> error + bool" where
  "can_allocate bm seq =
     (case num_blocks seq of
        Inl e \<Rightarrow> Inl e
      | Inr n \<Rightarrow> Inr (n \<le> length (free_block_ids bm)))"

text \<open>
  One iteration of the loop of \<^verbatim>\<open>allocate\<close>.  The loop state is the manager, the
  sequence, the running hash \<open>h\<close> and the flag \<open>cache_miss\<close>; \<open>i\<close> is the loop index.
  \<open>miss_test\<close> is the condition
  \<^verbatim>\<open>block_id == -1 or self.blocks[block_id].token_ids != token_ids\<close>.
\<close>

definition miss_test :: "BlockManager \<Rightarrow> nat option \<Rightarrow> int list \<Rightarrow> error + bool" where
  "miss_test bm found toks =
     (case found of
        None \<Rightarrow> Inr True
      | Some b \<Rightarrow>
          if b < length (blocks bm) then Inr (Block.token_ids (blocks bm ! b) \<noteq> toks)
          else Inl IndexError)"

definition publish :: "BlockManager \<Rightarrow> int \<Rightarrow> int list \<Rightarrow> nat \<Rightarrow> BlockManager" where
  "publish bm h toks b =
     (if h \<noteq> - 1
      then bm\<lparr>blocks := (blocks bm)[b := update (blocks bm ! b) h toks],
              hash_to_block_id := (hash_to_block_id bm)(h \<mapsto> b)\<rparr>
      else bm)"

definition claim_block ::
  "BlockManager \<Rightarrow> Sequence \<Rightarrow> bool \<Rightarrow> nat option
     \<Rightarrow> error + (BlockManager \<times> Sequence \<times> nat)" where
  "claim_block bm seq cache_miss found =
     (if cache_miss
      then (case free_block_ids bm of
              [] \<Rightarrow> Inl IndexError
            | b # _ \<Rightarrow>
                (case allocate_block bm b of
                   Inl e \<Rightarrow> Inl e
                 | Inr bm' \<Rightarrow> Inr (bm', seq, b)))
      else (case found of
              None \<Rightarrow> Inl IndexError
            | Some b \<Rightarrow>
                if b \<in> used_block_ids bm
                then Inr (bm\<lparr>blocks := (blocks bm)
                              [b := (blocks bm ! b)\<lparr>ref_count := ref_count (blocks bm ! b) + 1\<rparr>]\<rparr>,
                          seq\<lparr>num_cached_tokens :=
                                 num_cached_tokens seq + BlockManager.block_size bm\<rparr>, b)
                else (case allocate_block bm b of
                        Inl e \<Rightarrow> Inl e
                      | Inr bm' \<Rightarrow>
                          Inr (bm', seq\<lparr>num_cached_tokens :=
                                 num_cached_tokens seq + BlockManager.block_size bm\<rparr>, b))))"

definition allocate_step ::
  "digest \<Rightarrow> BlockManager \<times> Sequence \<times> int \<times> bool \<Rightarrow> nat
     \<Rightarrow> error + (BlockManager \<times> Sequence \<times> int \<times> bool)" where
  "allocate_step xxh64 st i =
     (case st of (bm, seq, h, cache_miss) \<Rightarrow>
      (case block seq (int i) of
         Inl e \<Rightarrow> Inl e
       | Inr toks \<Rightarrow>
      (case (if length toks = BlockManager.block_size bm
             then compute_hash xxh64 toks h else Inr (- 1)) of
         Inl e \<Rightarrow> Inl e
       | Inr h' \<Rightarrow>
      (case miss_test bm (hash_to_block_id bm h') toks of
         Inl e \<Rightarrow> Inl e
       | Inr miss \<Rightarrow>
      (case claim_block bm seq (cache_miss \<or> miss) (hash_to_block_id bm h') of
         Inl e \<Rightarrow> Inl e
       | Inr (bm', seq', b) \<Rightarrow>
           Inr (publish bm' h' toks b,
                seq'\<lparr>block_table := block_table seq' @ [b]\<rparr>,
                h', cache_miss \<or> miss))))))"

fun allocate_loop ::
  "digest \<Rightarrow> BlockManager \<times> Sequence \<times> int \<times> bool \<Rightarrow> nat list
     \<Rightarrow> error + (BlockManager \<times> Sequence \<times> int \<times> bool)" where
  "allocate_loop xxh64 st [] = Inr st"
| "allocate_loop xxh64 st (i # is) =
     (case allocate_step xxh64 st i of
        Inl e \<Rightarrow> Inl e
      | Inr st' \<Rightarrow> allocate_loop xxh64 st' is)"

definition allocate :: "digest \<Rightarrow> BlockManager \<Rightarrow> Sequence \<Rightarrow> error + (BlockManager \<times> Sequence)" where
  "allocate xxh64 bm seq =
     (if block_table seq \<noteq> [] then Inl AssertionError
      else (case num_blocks seq of
              Inl e \<Rightarrow> Inl e
            | Inr n \<Rightarrow>
                (case allocate_loop xxh64 (bm, seq, - 1, False) [0..<n] of
                   Inl e \<Rightarrow> Inl e
                 | Inr (bm', seq', h, cache_miss) \<Rightarrow> Inr (bm', seq'))))"

text \<open>\<^verbatim>\<open>deallocate\<close>: the loop runs over \<^verbatim>\<open>reversed(seq.block_table)\<close>.\<close>

definition decr_ref :: "BlockManager \<Rightarrow> nat \<Rightarrow> BlockManager" where
  "decr_ref bm b =
     bm\<lparr>blocks := (blocks bm)[b := (blocks bm ! b)\<lparr>ref_count := ref_count (blocks bm ! b) - 1\<rparr>]\<rparr>"

fun deallocate_loop :: "BlockManager \<Rightarrow> nat list \<Rightarrow> error + BlockManager" where
  "deallocate_loop bm [] = Inr bm"
| "deallocate_loop bm (b # bs) =
     (if \<not> b < length (blocks bm) then Inl IndexError
      else if ref_count (blocks (decr_ref bm b) ! b) = 0
      then (case deallocate_block (decr_ref bm b) b of
              Inl e \<Rightarrow> Inl e
            | Inr bm' \<Rightarrow> deallocate_loop bm' bs)
      else deallocate_loop (decr_ref bm b) bs)"

definition deallocate :: "BlockManager \<Rightarrow> Sequence \<Rightarrow> error + (BlockManager \<times> Sequence)" where
  "deallocate bm seq =
     (case deallocate_loop bm (rev (block_table seq)) of
        Inl e \<Rightarrow> Inl e
      | Inr bm' \<Rightarrow> Inr (bm', seq\<lparr>num_cached_tokens := 0, block_table := []\<rparr>))"

text \<open>\<^verbatim>\<open>len(self.free_block_ids) >= (len(seq) % self.block_size == 1)\<close>: the comparison
  on the right is the integer 1 or 0.\<close>

definition can_append :: "BlockManager \<Rightarrow> Sequence \<Rightarrow> error + bool" where
  "can_append bm seq =
     (if BlockManager.block_size bm = 0 then Inl ZeroDivisionError
      else Inr ((if num_tokens seq mod BlockManager.block_size bm = 1 then 1 else 0)
                  \<le> length (free_block_ids bm)))"

text \<open>\<^verbatim>\<open>self.blocks[block_table[-2]].hash if len(block_table) > 1 else -1\<close>.\<close>

definition prefix_hash :: "BlockManager \<Rightarrow> nat list \<Rightarrow> error + int" where
  "prefix_hash bm table =
     (if 1 < length table
      then (if last (butlast table) < length (blocks bm)
            then Inr (hash (blocks bm ! last (butlast table)))
            else Inl IndexError)
      else Inr (- 1))"

definition may_append :: "digest \<Rightarrow> BlockManager \<Rightarrow> Sequence \<Rightarrow> error + (BlockManager \<times> Sequence)" where
  "may_append xxh64 bm seq =
     (if block_table seq = [] then Inl IndexError
      else if \<not> last (block_table seq) < length (blocks bm) then Inl IndexError
      else if BlockManager.block_size bm = 0 then Inl ZeroDivisionError
      else if num_tokens seq mod BlockManager.block_size bm = 1
      then (if hash (blocks bm ! last (block_table seq)) = - 1 then Inl AssertionError
            else (case free_block_ids bm of
                    [] \<Rightarrow> Inl IndexError
                  | b # _ \<Rightarrow>
                      (case allocate_block bm b of
                         Inl e \<Rightarrow> Inl e
                       | Inr bm' \<Rightarrow> Inr (bm', seq\<lparr>block_table := block_table seq @ [b]\<rparr>))))
      else if num_tokens seq mod BlockManager.block_size bm = 0
      then (if hash (blocks bm ! last (block_table seq)) \<noteq> - 1 then Inl AssertionError
            else (case num_blocks seq of
                    Inl e \<Rightarrow> Inl e
                  | Inr n \<Rightarrow>
                 (case block seq (int n - 1) of
                    Inl e \<Rightarrow> Inl e
                  | Inr toks \<Rightarrow>
                 (case prefix_hash bm (block_table seq) of
                    Inl e \<Rightarrow> Inl e
                  | Inr prefix \<Rightarrow>
                 (case compute_hash xxh64 toks prefix of
                    Inl e \<Rightarrow> Inl e
                  | Inr h \<Rightarrow>
                      Inr (bm\<lparr>blocks := (blocks bm)
                                [last (block_table seq) :=
                                   update (blocks bm ! last (block_table seq)) h toks],
                              hash_to_block_id := (hash_to_block_id bm)
                                (h \<mapsto> block_id (blocks bm ! last (block_table seq)))\<rparr>,
                           seq))))))
      else if hash (blocks bm ! last (block_table seq)) \<noteq> - 1 then Inl AssertionError
      else Inr (bm, seq))"

section \<open>engine/scheduler.py\<close>

text \<open>
  The queues hold references to \<^verbatim>\<open>Sequence\<close> objects, and the same object is reachable
  from a queue, from the batch that \<^verbatim>\<open>schedule\<close> returns and from the caller.  The
  objects live in \<open>heap\<close>; a reference is the object's \<^verbatim>\<open>seq_id\<close>, which the class-wide
  counter makes unique.
\<close>

record Scheduler =
  max_num_seqs :: int
  max_num_batched_tokens :: int
  eos :: int
  block_manager :: BlockManager
  waiting :: "nat list"
  running :: "nat list"
  heap :: "nat \<Rightarrow> Sequence"

record Config =
  cfg_max_num_batched_tokens :: int
  cfg_max_num_seqs :: int
  cfg_eos :: int
  kvcache_block_size :: nat
  num_kvcache_blocks :: nat

definition Scheduler_init :: "Config \<Rightarrow> (nat \<Rightarrow> Sequence) \<Rightarrow> error + Scheduler" where
  "Scheduler_init config objs =
     (case BlockManager_init (num_kvcache_blocks config) (kvcache_block_size config) of
        Inl e \<Rightarrow> Inl e
      | Inr bm \<Rightarrow>
          Inr \<lparr>max_num_seqs = cfg_max_num_seqs config,
               max_num_batched_tokens = cfg_max_num_batched_tokens config,
               eos = cfg_eos config, block_manager = bm,
               waiting = [], running = [], heap = objs\<rparr>)"

definition is_finished :: "Scheduler \<Rightarrow> bool" where
  "is_finished sch = (waiting sch = [] \<and> running sch = [])"

definition add :: "Scheduler \<Rightarrow> Sequence \<Rightarrow> Scheduler" where
  "add sch seq =
     sch\<lparr>heap := (heap sch)(seq_id seq := seq), waiting := waiting sch @ [seq_id seq]\<rparr>"

definition preempt :: "Scheduler \<Rightarrow> nat \<Rightarrow> error + Scheduler" where
  "preempt sch r =
     (case deallocate (block_manager sch) ((heap sch r)\<lparr>status := WAITING\<rparr>) of
        Inl e \<Rightarrow> Inl e
      | Inr (bm', seq') \<Rightarrow>
          Inr (sch\<lparr>block_manager := bm', heap := (heap sch)(r := seq'),
                   waiting := r # waiting sch\<rparr>))"

lemma preempt_running: "preempt sch r = Inr sch' \<Longrightarrow> running sch' = running sch"
  by (auto simp: preempt_def split: sum.splits)

text \<open>
  The prefill loop of \<^verbatim>\<open>schedule\<close>.  Its state is the scheduler, \<^verbatim>\<open>scheduled_seqs\<close>,
  \<^verbatim>\<open>num_seqs\<close> and \<^verbatim>\<open>num_batched_tokens\<close>; every \<open>Inr\<close> without a recursive call is
  the loop ending, by its condition or by \<^verbatim>\<open>break\<close>.
\<close>

function prefill_loop ::
  "digest \<Rightarrow> Scheduler \<Rightarrow> nat list \<Rightarrow> nat \<Rightarrow> int
     \<Rightarrow> error + (Scheduler \<times> nat list \<times> nat \<times> int)" where
  "prefill_loop xxh64 sch scheduled_seqs num_seqs num_batched_tokens =
     (case waiting sch of
        [] \<Rightarrow> Inr (sch, scheduled_seqs, num_seqs, num_batched_tokens)
      | r # rest \<Rightarrow>
          if \<not> int num_seqs < max_num_seqs sch
          then Inr (sch, scheduled_seqs, num_seqs, num_batched_tokens)
          else if num_batched_tokens + int (num_tokens (heap sch r)) > max_num_batched_tokens sch
          then Inr (sch, scheduled_seqs, num_seqs, num_batched_tokens)
          else (case can_allocate (block_manager sch) (heap sch r) of
                  Inl e \<Rightarrow> Inl e
                | Inr ok \<Rightarrow>
                    if \<not> ok then Inr (sch, scheduled_seqs, num_seqs, num_batched_tokens)
                    else (case allocate xxh64 (block_manager sch) (heap sch r) of
                            Inl e \<Rightarrow> Inl e
                          | Inr (bm', seq') \<Rightarrow>
                              prefill_loop xxh64
                                (sch\<lparr>block_manager := bm',
                                     heap := (heap sch)(r := seq'\<lparr>status := RUNNING\<rparr>),
                                     waiting := rest,
                                     running := running sch @ [r]\<rparr>)
                                (scheduled_seqs @ [r]) (num_seqs + 1)
                                (num_batched_tokens + int (num_tokens seq')
                                   - int (num_cached_tokens seq')))))"
  by pat_completeness auto
termination
  by (relation "measure (\<lambda>(xxh64, sch, scheduled_seqs, num_seqs, nbt). length (waiting sch))") auto

text \<open>
  The inner loop \<^verbatim>\<open>while not can_append(seq)\<close> of the decode phase, for the sequence \<open>r\<close>
  already popped from \<^verbatim>\<open>running\<close>.  The flag returned is whether the loop ended by its
  condition (the \<^verbatim>\<open>else\<close> clause of the \<^verbatim>\<open>while\<close> runs) or by \<^verbatim>\<open>break\<close> after \<open>r\<close>
  preempted itself.
\<close>

function preempt_until_can_append :: "Scheduler \<Rightarrow> nat \<Rightarrow> error + (Scheduler \<times> bool)" where
  "preempt_until_can_append sch r =
     (case can_append (block_manager sch) (heap sch r) of
        Inl e \<Rightarrow> Inl e
      | Inr ok \<Rightarrow>
          if ok then Inr (sch, True)
          else if running sch \<noteq> []
          then (case preempt (sch\<lparr>running := butlast (running sch)\<rparr>) (last (running sch)) of
                  Inl e \<Rightarrow> Inl e
                | Inr sch' \<Rightarrow> preempt_until_can_append sch' r)
          else (case preempt sch r of
                  Inl e \<Rightarrow> Inl e
                | Inr sch' \<Rightarrow> Inr (sch', False)))"
  by pat_completeness auto
termination
  by (relation "measure (\<lambda>(sch, r). length (running sch))")
     (auto dest!: preempt_running)

declare prefill_loop.simps [simp del]
declare preempt_until_can_append.simps [simp del]

lemma preempt_until_can_append_running:
  "preempt_until_can_append sch r = Inr (sch', ok) \<Longrightarrow> length (running sch') \<le> length (running sch)"
proof (induction sch r rule: preempt_until_can_append.induct)
  case (1 sch r)
  show ?case
  proof (cases "can_append (block_manager sch) (heap sch r)")
    case (Inl e)
    with "1.prems" show ?thesis
      by (simp add: preempt_until_can_append.simps [of sch r])
  next
    case (Inr b)
    show ?thesis
    proof (cases b)
      case True
      with Inr "1.prems" show ?thesis
        by (simp add: preempt_until_can_append.simps [of sch r])
    next
      case False
      show ?thesis
      proof (cases "running sch = []")
        case True
        with Inr False "1.prems" show ?thesis
          by (auto simp: preempt_until_can_append.simps [of sch r]
                   split: sum.splits dest!: preempt_running)
      next
        case ne: False
        with Inr False "1.prems" obtain sch1 where
          p: "preempt (sch\<lparr>running := butlast (running sch)\<rparr>) (last (running sch)) = Inr sch1"
          and rec: "preempt_until_can_append sch1 r = Inr (sch', ok)"
          by (auto simp: preempt_until_can_append.simps [of sch r] split: sum.splits)
        from "1.IH" [OF Inr _ ne p rec] False
        have "length (running sch') \<le> length (running sch1)" by simp
        moreover from preempt_running [OF p]
        have "length (running sch1) = length (running sch) - 1" by simp
        ultimately show ?thesis by simp
      qed
    qed
  qed
qed

text \<open>The outer loop of the decode phase.\<close>

function decode_loop ::
  "digest \<Rightarrow> Scheduler \<Rightarrow> nat list \<Rightarrow> nat \<Rightarrow> error + (Scheduler \<times> nat list \<times> nat)" where
  "decode_loop xxh64 sch scheduled_seqs num_seqs =
     (case running sch of
        [] \<Rightarrow> Inr (sch, scheduled_seqs, num_seqs)
      | r # rest \<Rightarrow>
          if \<not> int num_seqs < max_num_seqs sch then Inr (sch, scheduled_seqs, num_seqs)
          else (case preempt_until_can_append (sch\<lparr>running := rest\<rparr>) r of
                  Inl e \<Rightarrow> Inl e
                | Inr (sch', ok) \<Rightarrow>
                    if ok
                    then (case may_append xxh64 (block_manager sch') (heap sch' r) of
                            Inl e \<Rightarrow> Inl e
                          | Inr (bm', seq') \<Rightarrow>
                              decode_loop xxh64
                                (sch'\<lparr>block_manager := bm', heap := (heap sch')(r := seq')\<rparr>)
                                (scheduled_seqs @ [r]) (num_seqs + 1))
                    else decode_loop xxh64 sch' scheduled_seqs num_seqs))"
  by pat_completeness auto
termination
  by (relation "measure (\<lambda>(xxh64, sch, scheduled_seqs, num_seqs). length (running sch))")
     (auto dest!: preempt_until_can_append_running)

declare decode_loop.simps [simp del]

text \<open>
  \<^verbatim>\<open>schedule\<close> returns the new scheduler, the batch and \<^verbatim>\<open>is_prefill\<close>.
  \<^verbatim>\<open>running.extendleft(reversed(scheduled_seqs))\<close> puts the batch, in its order, in front
  of \<^verbatim>\<open>running\<close>.
\<close>

definition schedule :: "digest \<Rightarrow> Scheduler \<Rightarrow> error + (Scheduler \<times> nat list \<times> bool)" where
  "schedule xxh64 sch =
     (case prefill_loop xxh64 sch [] 0 0 of
        Inl e \<Rightarrow> Inl e
      | Inr (sch1, scheduled_seqs, num_seqs, num_batched_tokens) \<Rightarrow>
          if scheduled_seqs \<noteq> [] then Inr (sch1, scheduled_seqs, True)
          else (case decode_loop xxh64 sch1 scheduled_seqs num_seqs of
                  Inl e \<Rightarrow> Inl e
                | Inr (sch2, scheduled_seqs', num_seqs') \<Rightarrow>
                    if scheduled_seqs' = [] then Inl AssertionError
                    else Inr (sch2\<lparr>running := scheduled_seqs' @ running sch2\<rparr>,
                              scheduled_seqs', False)))"

text \<open>
  \<^verbatim>\<open>postprocess\<close>: the body of the loop for one pair \<open>(seq, token_id)\<close>, then the loop
  over \<^verbatim>\<open>zip(seqs, token_ids)\<close>.  \<^verbatim>\<open>running.remove(seq)\<close> raises when the sequence is not
  in the queue.
\<close>

definition finish_test :: "Scheduler \<Rightarrow> Sequence \<Rightarrow> int \<Rightarrow> bool" where
  "finish_test sch seq token_id =
     ((\<not> Sequence.ignore_eos seq \<and> token_id = eos sch)
      \<or> num_completion_tokens seq = Sequence.max_tokens seq)"

definition postprocess_one :: "Scheduler \<Rightarrow> nat \<times> int \<Rightarrow> error + Scheduler" where
  "postprocess_one sch p =
     (case p of (r, token_id) \<Rightarrow>
        if finish_test sch (append_token (heap sch r) token_id) token_id
        then (case deallocate (block_manager sch)
                     ((append_token (heap sch r) token_id)\<lparr>status := FINISHED\<rparr>) of
                Inl e \<Rightarrow> Inl e
              | Inr (bm', seq') \<Rightarrow>
                  if r \<notin> set (running sch) then Inl ValueError
                  else Inr (sch\<lparr>block_manager := bm', heap := (heap sch)(r := seq'),
                               running := remove1 r (running sch)\<rparr>))
        else Inr (sch\<lparr>heap := (heap sch)(r := append_token (heap sch r) token_id)\<rparr>))"

fun postprocess_loop :: "Scheduler \<Rightarrow> (nat \<times> int) list \<Rightarrow> error + Scheduler" where
  "postprocess_loop sch [] = Inr sch"
| "postprocess_loop sch (p # ps) =
     (case postprocess_one sch p of
        Inl e \<Rightarrow> Inl e
      | Inr sch' \<Rightarrow> postprocess_loop sch' ps)"

definition postprocess :: "Scheduler \<Rightarrow> nat list \<Rightarrow> int list \<Rightarrow> error + Scheduler" where
  "postprocess sch seqs toks = postprocess_loop sch (zip seqs toks)"

section \<open>Finishing a sequence\<close>

lemma deallocate_fields:
  "deallocate bm seq = Inr (bm', seq') \<Longrightarrow>
     seq' = seq\<lparr>num_cached_tokens := 0, block_table := []\<rparr>"
  by (auto simp: deallocate_def split: sum.splits)

definition seq_zero_budget :: Sequence where
  "seq_zero_budget =
     \<lparr>seq_id = 0, status = RUNNING, token_ids = [1, 2, 3], last_token = 3, num_tokens = 3,
      num_prompt_tokens = 3, num_cached_tokens = 0, block_table = [0],
      max_tokens = 0, ignore_eos = False, block_size = 4\<rparr>"

definition sch_zero_budget :: Scheduler where
  "sch_zero_budget =
     \<lparr>max_num_seqs = 512, max_num_batched_tokens = 16384, eos = 2,
      block_manager =
        \<lparr>block_size = 4,
         blocks = [\<lparr>block_id = 0, ref_count = 1, hash = - 1, token_ids = []\<rparr>],
         hash_to_block_id = Map.empty, free_block_ids = [], used_block_ids = {0}\<rparr>,
      waiting = [], running = [0], heap = (\<lambda>_. seq_zero_budget)\<rparr>"

text \<open>
  Claim C10.  A sequence whose \<^verbatim>\<open>max_tokens\<close> is zero or negative is never marked
  Finished by the length condition of \<^verbatim>\<open>postprocess\<close>: after the token is appended
  \<^verbatim>\<open>num_completion_tokens\<close> is at least 1, so it differs from \<^verbatim>\<open>max_tokens\<close>, the finish
  condition is exactly "not \<^verbatim>\<open>ignore_eos\<close> and the token is EOS", and the sequence is
  Finished afterwards only if it was before or EOS was sampled with \<^verbatim>\<open>ignore_eos\<close> false.
  The hypothesis \<open>num_prompt_tokens \<le> num_tokens\<close> holds of every sequence built by
  \<^verbatim>\<open>__init__\<close> and grown by \<^verbatim>\<open>append_token\<close>.
\<close>

theorem postprocess_max_tokens_nonpositive:
  assumes "Sequence.max_tokens (heap sch r) \<le> 0"
    and "num_prompt_tokens (heap sch r) \<le> num_tokens (heap sch r)"
    and "postprocess_one sch (r, tok) = Inr sch'"
  shows "1 \<le> num_completion_tokens (heap sch' r)
     \<and> num_completion_tokens (heap sch' r) \<noteq> Sequence.max_tokens (heap sch' r)
     \<and> (finish_test sch (append_token (heap sch r) tok) tok
          \<longleftrightarrow> \<not> Sequence.ignore_eos (heap sch r) \<and> tok = eos sch)
     \<and> (status (heap sch' r) = FINISHED
          \<longleftrightarrow> status (heap sch r) = FINISHED
              \<or> (\<not> Sequence.ignore_eos (heap sch r) \<and> tok = eos sch))"
  using assms
  by (auto simp: postprocess_one_def finish_test_def append_token_def num_completion_tokens_def
           split: if_splits sum.splits dest!: deallocate_fields)

theorem postprocess_max_tokens_nonpositive_witness:
  "Sequence.max_tokens (heap sch_zero_budget 0) \<le> 0
   \<and> num_prompt_tokens (heap sch_zero_budget 0) \<le> num_tokens (heap sch_zero_budget 0)
   \<and> (\<exists>sch'. postprocess_one sch_zero_budget (0, 7) = Inr sch'
        \<and> status (heap sch' 0) = RUNNING
        \<and> num_completion_tokens (heap sch' 0) = 1)"
proof -
  have a: "Sequence.max_tokens (heap sch_zero_budget 0) \<le> 0"
    by (simp add: sch_zero_budget_def seq_zero_budget_def)
  have b: "num_prompt_tokens (heap sch_zero_budget 0) \<le> num_tokens (heap sch_zero_budget 0)"
    by (simp add: sch_zero_budget_def seq_zero_budget_def)
  have c: "postprocess_one sch_zero_budget (0, 7)
             = Inr (sch_zero_budget\<lparr>heap := (heap sch_zero_budget)(0 := append_token seq_zero_budget 7)\<rparr>)"
    by (simp add: postprocess_one_def finish_test_def sch_zero_budget_def seq_zero_budget_def
          append_token_def num_completion_tokens_def)
  from postprocess_max_tokens_nonpositive [OF a b c] a b c show ?thesis
    by (simp add: sch_zero_budget_def seq_zero_budget_def append_token_def
          num_completion_tokens_def)
qed


section \<open>Prefix sharing\<close>

definition default_params :: SamplingParams where
  "default_params = \<lparr>SamplingParams.max_tokens = 64, SamplingParams.ignore_eos = False\<rparr>"

definition prefix_sharing :: "digest \<Rightarrow> error + (BlockManager \<times> Sequence \<times> Sequence)" where
  "prefix_sharing xxh64 =
     (case BlockManager_init 8 4 of Inl e \<Rightarrow> Inl e | Inr bm0 \<Rightarrow>
     (case Sequence_init 0 4 [1, 2, 3, 4, 5, 6, 7, 8, 9] default_params of Inl e \<Rightarrow> Inl e | Inr a0 \<Rightarrow>
     (case Sequence_init 1 4 [1, 2, 3, 4, 5, 6, 7, 8, 10] default_params of Inl e \<Rightarrow> Inl e | Inr b0 \<Rightarrow>
     (case allocate xxh64 bm0 a0 of Inl e \<Rightarrow> Inl e | Inr (bm1, a1) \<Rightarrow>
     (case allocate xxh64 bm1 b0 of Inl e \<Rightarrow> Inl e | Inr (bm2, b1) \<Rightarrow>
        Inr (bm2, a1, b1))))))"

text \<open>The digest of the empty input is the published reference value of XXH64.\<close>

lemma XXH64_empty: "XXH64 [] = 0xEF46DB3751D8E999"
  by code_simp

lemma hash_1234: "compute_hash XXH64 [1, 2, 3, 4] (- 1) = Inr 8356527653647720045"
  by code_simp

lemma hash_1234_5678:
  "compute_hash XXH64 [5, 6, 7, 8] 8356527653647720045 = Inr 610383040053763902"
  by code_simp

lemmas eval_defs =
  BlockManager_init_def Sequence_init_def allocate_def num_blocks_def block_def
  allocate_step_def miss_test_def claim_block_def publish_def allocate_block_def
  deallocate_def deallocate_block_def decr_ref_def may_append_def prefix_hash_def
  append_token_def can_allocate_def can_append_def
  Block_init_def update_def reset_def default_params_def upt_conv_Cons

lemma prefix_sharing_result:
  "(case prefix_sharing XXH64 of
      Inl e \<Rightarrow> None
    | Inr (bm, a, b) \<Rightarrow>
        Some (block_table a, block_table b, map ref_count (blocks bm),
              num_cached_tokens a, num_cached_tokens b))
   = Some ([0, 1, 2], [0, 1, 3], [2, 2, 1, 1, 0, 0, 0, 0], 0, 8)"
  by (simp add: prefix_sharing_def eval_defs hash_1234 hash_1234_5678)

text \<open>
  Claim C2, as amended.  From a fresh manager with block size 4 and 8 blocks, allocating
  A = [1..9] and then B = [1..8, 10]: the first two entries of the two block tables are
  equal, both blocks have \<^verbatim>\<open>ref_count\<close> 2, and \<^verbatim>\<open>num_cached_tokens\<close> is 8 for B but 0 for
  A, whose blocks were all cache misses.
\<close>

theorem prefix_sharing_amended:
  "(case prefix_sharing XXH64 of
      Inl e \<Rightarrow> False
    | Inr (bm, a, b) \<Rightarrow>
        take 2 (block_table a) = take 2 (block_table b)
        \<and> map (\<lambda>i. ref_count (blocks bm ! i)) (take 2 (block_table a)) = [2, 2]
        \<and> num_cached_tokens a = 0 \<and> num_cached_tokens b = 8)"
  using prefix_sharing_result by (auto split: sum.splits)

text \<open>Claim C2 as stated (both sequences report 8 cached tokens) fails on this run.\<close>

theorem prefix_sharing_counterexample:
  "\<not> (case prefix_sharing XXH64 of
        Inl e \<Rightarrow> False
      | Inr (bm, a, b) \<Rightarrow>
          take 2 (block_table a) = take 2 (block_table b)
          \<and> map (\<lambda>i. ref_count (blocks bm ! i)) (take 2 (block_table a)) = [2, 2]
          \<and> num_cached_tokens a = 8 \<and> num_cached_tokens b = 8)"
  using prefix_sharing_result by (auto split: sum.splits)


section \<open>The length of the block table\<close>

lemma claim_block_seq:
  "claim_block bm seq cm found = Inr (bm', seq', b) \<Longrightarrow>
     \<exists>c. seq' = seq\<lparr>num_cached_tokens := c\<rparr>"
  by (auto simp: claim_block_def split: if_splits list.splits sum.splits option.splits
           intro: exI [of _ "num_cached_tokens seq"])

lemma allocate_step_seq:
  "allocate_step xxh64 (bm, seq, h, cm) i = Inr (bm', seq', h', cm') \<Longrightarrow>
     \<exists>c b. seq' = seq\<lparr>num_cached_tokens := c, block_table := block_table seq @ [b]\<rparr>"
  by (fastforce simp: allocate_step_def split: sum.splits dest!: claim_block_seq)

lemma allocate_loop_seq:
  "allocate_loop xxh64 (bm, seq, h, cm) js = Inr (bm', seq', h', cm') \<Longrightarrow>
     \<exists>c bs. length bs = length js
        \<and> seq' = seq\<lparr>num_cached_tokens := c, block_table := block_table seq @ bs\<rparr>"
proof (induction js arbitrary: bm seq h cm)
  case Nil
  then show ?case by (auto intro: exI [of _ "num_cached_tokens seq"])
next
  case (Cons j js)
  from Cons.prems obtain bm1 seq1 h1 cm1 where
    step: "allocate_step xxh64 (bm, seq, h, cm) j = Inr (bm1, seq1, h1, cm1)"
    and rest: "allocate_loop xxh64 (bm1, seq1, h1, cm1) js = Inr (bm', seq', h', cm')"
    by (auto split: sum.splits)
  from allocate_step_seq [OF step] obtain c1 b where
    s1: "seq1 = seq\<lparr>num_cached_tokens := c1, block_table := block_table seq @ [b]\<rparr>" by blast
  from Cons.IH [OF rest] obtain c bs where
    l: "length bs = length js"
    and s': "seq' = seq1\<lparr>num_cached_tokens := c, block_table := block_table seq1 @ bs\<rparr>" by blast
  from s1 s' have "seq' = seq\<lparr>num_cached_tokens := c, block_table := block_table seq @ (b # bs)\<rparr>"
    by simp
  with l show ?case by (metis length_Cons)
qed

lemma allocate_seq:
  assumes "allocate xxh64 bm seq = Inr (bm', seq')"
  shows "\<exists>c bs. num_blocks seq = Inr (length bs)
           \<and> seq' = seq\<lparr>num_cached_tokens := c, block_table := bs\<rparr>"
proof -
  from assms have e: "block_table seq = []"
    by (auto simp: allocate_def split: if_splits)
  from assms obtain n h cm where n: "num_blocks seq = Inr n"
    and l: "allocate_loop xxh64 (bm, seq, - 1, False) [0..<n] = Inr (bm', seq', h, cm)"
    by (auto simp: allocate_def split: if_splits sum.splits)
  from allocate_loop_seq [OF l] e n show ?thesis by auto
qed

lemma div_block: "r < bs \<Longrightarrow> (k * bs + r) div bs = (k::nat)"
  by simp

lemma num_blocks_append_token:
  assumes "0 < bs"
  shows "(Suc n + bs - 1) div bs = (n + bs - 1) div bs + (if n mod bs = 0 then 1 else 0)"
proof -
  obtain q r where n: "n = q * bs + r" and r: "r < bs"
    using assms by (metis mod_less_divisor mult.commute mult_div_mod_eq)
  have a: "Suc n + bs - 1 = (q + 1) * bs + r" using n by simp
  have up: "(Suc n + bs - 1) div bs = q + 1"
    unfolding a by (rule div_block [OF r])
  show ?thesis
  proof (cases "r = 0")
    case True
    from True n assms have e: "n + bs - 1 = q * bs + (bs - 1)" by simp
    have "(n + bs - 1) div bs = q"
      unfolding e by (rule div_block) (use assms in simp)
    moreover from True n have "n mod bs = 0" by simp
    ultimately show ?thesis using up by simp
  next
    case False
    with r obtain r' where r': "r = Suc r'" "r' < bs" by (cases r) auto
    have b: "n + bs - 1 = (q + 1) * bs + r'" using n r' by simp
    have "(n + bs - 1) div bs = q + 1"
      unfolding b by (rule div_block [OF r'(2)])
    moreover from False n r have "n mod bs \<noteq> 0" by simp
    ultimately show ?thesis using up by simp
  qed
qed


lemma may_append_table:
  assumes bs: "Sequence.block_size seq = BlockManager.block_size bm" "1 < BlockManager.block_size bm"
    and tab: "num_blocks seq = Inr (length (block_table seq))"
    and app: "may_append xxh64 bm (append_token seq t) = Inr (bm', seq')"
  shows "num_blocks seq' = Inr (length (block_table seq'))"
proof -
  let ?bs = "BlockManager.block_size bm"
  let ?n = "num_tokens seq"
  from bs have pos: "0 < ?bs" by simp
  from tab bs have len: "length (block_table seq) = (?n + ?bs - 1) div ?bs"
    by (simp add: num_blocks_def split: if_splits)
  have grow: "(Suc ?n + ?bs - 1) div ?bs = (?n + ?bs - 1) div ?bs + (if ?n mod ?bs = 0 then 1 else 0)"
    by (rule num_blocks_append_token [OF pos])
  have one: "Suc ?n mod ?bs = 1 \<longleftrightarrow> ?n mod ?bs = 0"
    using bs(2) by (auto simp: mod_Suc split: if_splits)
  show ?thesis
  proof (cases "?n mod ?bs = 0")
    case True
    with one app obtain b where "seq' = (append_token seq t)\<lparr>block_table := block_table seq @ [b]\<rparr>"
      by (auto simp: may_append_def append_token_def split: if_splits list.splits sum.splits)
    with True grow len bs show ?thesis
      by (simp add: num_blocks_def append_token_def)
  next
    case False
    with one app have "seq' = append_token seq t"
      by (auto simp: may_append_def append_token_def split: if_splits list.splits sum.splits)
    with False grow len bs show ?thesis
      by (simp add: num_blocks_def append_token_def)
  qed
qed

lemma append_token_num_blocks:
  assumes "num_blocks seq = Inr (length (block_table seq))"
  shows "num_blocks (append_token seq t)
           = Inr (length (block_table (append_token seq t))
                  + (if num_tokens seq mod Sequence.block_size seq = 0 then 1 else 0))"
proof -
  from assms have pos: "0 < Sequence.block_size seq"
    by (simp add: num_blocks_def split: if_splits)
  from assms pos num_blocks_append_token [OF pos, of "num_tokens seq"] show ?thesis
    by (simp add: num_blocks_def append_token_def)
qed

text \<open>
  Claim C9, as amended.  \<open>len(block_table) == num_blocks\<close> holds when \<^verbatim>\<open>allocate\<close>
  returns, and it holds again when \<^verbatim>\<open>may_append\<close> returns for a sequence that satisfied it
  before its last token was appended (block sizes of sequence and manager equal and
  greater than 1).  In between it need not hold: \<^verbatim>\<open>append_token\<close> leaves the table alone
  and raises \<^verbatim>\<open>num_blocks\<close> by one exactly when the sequence filled whole blocks, so from
  \<^verbatim>\<open>postprocess\<close> until the \<^verbatim>\<open>may_append\<close> of the next tick the table of such a sequence
  is one entry short.
\<close>

theorem block_table_length_amended:
  "(allocate xxh64 bm0 seq0 = Inr (bm1, seq1)
      \<longrightarrow> num_blocks seq1 = Inr (length (block_table seq1)))
   \<and> (Sequence.block_size seq = BlockManager.block_size bm \<and> 1 < BlockManager.block_size bm
        \<and> num_blocks seq = Inr (length (block_table seq))
        \<and> may_append xxh64 bm (append_token seq t) = Inr (bm', seq')
      \<longrightarrow> num_blocks seq' = Inr (length (block_table seq')))
   \<and> (num_blocks seq2 = Inr (length (block_table seq2))
      \<longrightarrow> num_blocks (append_token seq2 t2)
            = Inr (length (block_table (append_token seq2 t2))
                   + (if num_tokens seq2 mod Sequence.block_size seq2 = 0 then 1 else 0)))"
proof (intro conjI impI)
  assume "allocate xxh64 bm0 seq0 = Inr (bm1, seq1)"
  from allocate_seq [OF this] show "num_blocks seq1 = Inr (length (block_table seq1))"
    by (auto simp: num_blocks_def split: if_splits)
next
  assume "Sequence.block_size seq = BlockManager.block_size bm \<and> 1 < BlockManager.block_size bm
        \<and> num_blocks seq = Inr (length (block_table seq))
        \<and> may_append xxh64 bm (append_token seq t) = Inr (bm', seq')"
  then show "num_blocks seq' = Inr (length (block_table seq'))"
    using may_append_table by blast
next
  assume "num_blocks seq2 = Inr (length (block_table seq2))"
  then show "num_blocks (append_token seq2 t2)
            = Inr (length (block_table (append_token seq2 t2))
                   + (if num_tokens seq2 mod Sequence.block_size seq2 = 0 then 1 else 0))"
    by (rule append_token_num_blocks)
qed

text \<open>\<^verbatim>\<open>LLMEngine.step\<close>, with the tokens that the model runner returns as a parameter.\<close>

definition step :: "digest \<Rightarrow> Scheduler \<Rightarrow> int list \<Rightarrow> error + Scheduler" where
  "step xxh64 sch toks =
     (case schedule xxh64 sch of
        Inl e \<Rightarrow> Inl e
      | Inr (sch1, seqs, is_prefill) \<Rightarrow> postprocess sch1 seqs toks)"

definition config4 :: "nat \<Rightarrow> Config" where
  "config4 n =
     \<lparr>cfg_max_num_batched_tokens = 16384, cfg_max_num_seqs = 512, cfg_eos = 2,
      kvcache_block_size = 4, num_kvcache_blocks = n\<rparr>"

definition seq_1234 :: Sequence where
  "seq_1234 =
     \<lparr>seq_id = 0, status = WAITING, token_ids = [1, 2, 3, 4], last_token = 4, num_tokens = 4,
      num_prompt_tokens = 4, num_cached_tokens = 0, block_table = [],
      max_tokens = 64, ignore_eos = False, block_size = 4\<rparr>"

lemma seq_1234_init: "Sequence_init 0 4 [1, 2, 3, 4] default_params = Inr seq_1234"
  by (simp add: Sequence_init_def default_params_def seq_1234_def)

text \<open>One request with the prompt [1, 2, 3, 4] on a pool of \<open>n\<close> blocks of size 4: the
  prefill tick, whose sampled token is 5.\<close>

definition one_request :: "digest \<Rightarrow> nat \<Rightarrow> error + Scheduler" where
  "one_request xxh64 n =
     (case Scheduler_init (config4 n) (\<lambda>_. seq_1234) of
        Inl e \<Rightarrow> Inl e
      | Inr sch \<Rightarrow> step xxh64 (add sch seq_1234) [5])"

lemmas sched_defs =
  Scheduler_init_def config4_def add_def step_def schedule_def prefill_loop.simps
  decode_loop.simps preempt_until_can_append.simps preempt_def postprocess_def
  postprocess_one_def finish_test_def num_completion_tokens_def seq_1234_def

lemma one_request_result:
  "(case one_request XXH64 8 of
      Inl e \<Rightarrow> None
    | Inr sch \<Rightarrow>
        Some (waiting sch, running sch, status (heap sch 0), num_blocks (heap sch 0),
              block_table (heap sch 0), free_block_ids (block_manager sch)))
   = Some ([], [0], RUNNING, Inr 2, [0], [1, 2, 3, 4, 5, 6, 7])"
  by (simp add: one_request_def sched_defs eval_defs hash_1234)

lemma one_request_result1:
  "(case one_request XXH64 1 of
      Inl e \<Rightarrow> None
    | Inr sch \<Rightarrow>
        Some (waiting sch, running sch, status (heap sch 0), num_blocks (heap sch 0),
              block_table (heap sch 0), free_block_ids (block_manager sch), schedule XXH64 sch))
   = Some ([], [0], RUNNING, Inr 2, [0], [], Inl AssertionError)"
  by (simp add: one_request_def sched_defs eval_defs hash_1234)


definition bm_fresh8 :: BlockManager where
  "bm_fresh8 =
     \<lparr>block_size = 4, blocks = map Block_init [0..<8], hash_to_block_id = Map.empty,
      free_block_ids = [0..<8], used_block_ids = {}\<rparr>"

lemma bm_fresh8_init: "BlockManager_init 8 4 = Inr bm_fresh8"
  by (simp add: BlockManager_init_def bm_fresh8_def)

lemma allocate_then_append_run:
  "\<exists>bm1 seq1 bm2 seq2.
      allocate XXH64 bm_fresh8 seq_1234 = Inr (bm1, seq1)
      \<and> Sequence.block_size seq1 = BlockManager.block_size bm1
      \<and> 1 < BlockManager.block_size bm1
      \<and> block_table seq1 = [0]
      \<and> may_append XXH64 bm1 (append_token seq1 5) = Inr (bm2, seq2)
      \<and> block_table seq2 = [0, 1]"
  by (simp add: bm_fresh8_def seq_1234_def eval_defs hash_1234)

text \<open>The hypotheses of the amended claim C9 hold on the run: allocate [1, 2, 3, 4],
  append 5, \<^verbatim>\<open>may_append\<close>.\<close>

theorem block_table_length_witness:
  "\<exists>bm1 seq1 bm2 seq2.
      allocate XXH64 bm_fresh8 seq_1234 = Inr (bm1, seq1)
      \<and> num_blocks seq1 = Inr (length (block_table seq1))
      \<and> Sequence.block_size seq1 = BlockManager.block_size bm1
      \<and> 1 < BlockManager.block_size bm1
      \<and> may_append XXH64 bm1 (append_token seq1 5) = Inr (bm2, seq2)
      \<and> num_blocks seq2 = Inr (length (block_table seq2))
      \<and> length (block_table seq2) = 2
      \<and> num_blocks (append_token seq1 5) = Inr (length (block_table seq1) + 1)"
proof -
  from allocate_then_append_run obtain bm1 seq1 bm2 seq2 where
    a: "allocate XXH64 bm_fresh8 seq_1234 = Inr (bm1, seq1)"
    and b: "Sequence.block_size seq1 = BlockManager.block_size bm1" "1 < BlockManager.block_size bm1"
    and t: "block_table seq1 = [0]"
    and m: "may_append XXH64 bm1 (append_token seq1 5) = Inr (bm2, seq2)"
    and t2: "block_table seq2 = [0, 1]"
    by blast
  note inst = block_table_length_amended [of XXH64 bm_fresh8 seq_1234 bm1 seq1 seq1 bm1 5 bm2 seq2 seq1 5]
  from inst a have n1: "num_blocks seq1 = Inr (length (block_table seq1))" by blast
  from inst b n1 m have n2: "num_blocks seq2 = Inr (length (block_table seq2))" by blast
  from allocate_seq [OF a] have nt: "num_tokens seq1 = 4" "Sequence.block_size seq1 = 4"
    by (auto simp: seq_1234_def)
  from inst n1 nt have n3: "num_blocks (append_token seq1 5) = Inr (length (block_table seq1) + 1)"
    by (simp add: append_token_def)
  from a n1 b m n2 t2 n3 show ?thesis by auto
qed

text \<open>
  Claim C9 as stated fails after \<^verbatim>\<open>postprocess\<close> and before the next tick: the running
  sequence has 5 tokens, so \<^verbatim>\<open>num_blocks\<close> is 2, and its table holds one block.
\<close>

theorem block_table_length_counterexample:
  "\<exists>sch. one_request XXH64 8 = Inr sch
      \<and> running sch = [0] \<and> status (heap sch 0) = RUNNING
      \<and> num_blocks (heap sch 0) = Inr 2
      \<and> length (block_table (heap sch 0)) = 1
      \<and> num_blocks (heap sch 0) \<noteq> Inr (length (block_table (heap sch 0)))"
  using one_request_result by (auto split: sum.splits)

text \<open>
  Claim C7 against the code.  With a pool of one block, after the prefill tick the only
  running sequence has 5 tokens and holds the only block; no prefill is possible and
  \<^verbatim>\<open>running\<close> is not empty.  In \<^verbatim>\<open>schedule\<close> the sequence cannot append, there is no other
  sequence to preempt, it preempts itself, and \<^verbatim>\<open>assert scheduled_seqs\<close> raises.
\<close>

theorem schedule_self_preempt_raises:
  "\<exists>sch. one_request XXH64 1 = Inr sch
      \<and> waiting sch = [] \<and> running sch = [0]
      \<and> free_block_ids (block_manager sch) = []
      \<and> block_table (heap sch 0) = [0]
      \<and> schedule XXH64 sch = Inl AssertionError"
  using one_request_result1 by (auto split: sum.splits)


section \<open>Pool conservation\<close>

definition pool_inv :: "BlockManager \<Rightarrow> bool" where
  "pool_inv bm \<longleftrightarrow>
     distinct (free_block_ids bm)
     \<and> set (free_block_ids bm) \<inter> used_block_ids bm = {}
     \<and> set (free_block_ids bm) \<union> used_block_ids bm = {0..<length (blocks bm)}"

lemma allocate_block_result:
  assumes "allocate_block bm b = Inr bm'"
  shows "b < length (blocks bm)" "ref_count (blocks bm ! b) = 0" "b \<in> set (free_block_ids bm)"
    "bm' = bm\<lparr>blocks := (blocks bm)[b := reset (blocks bm ! b)],
               free_block_ids := remove1 b (free_block_ids bm),
               used_block_ids := insert b (used_block_ids bm)\<rparr>"
  using assms by (auto simp: allocate_block_def split: if_splits)

lemma deallocate_block_result:
  assumes "deallocate_block bm b = Inr bm'"
  shows "b < length (blocks bm)" "ref_count (blocks bm ! b) = 0" "b \<in> used_block_ids bm"
    "bm' = bm\<lparr>used_block_ids := used_block_ids bm - {b},
               free_block_ids := free_block_ids bm @ [b]\<rparr>"
  using assms by (auto simp: deallocate_block_def split: if_splits)

lemma pool_inv_allocate_block:
  assumes "pool_inv bm" "allocate_block bm b = Inr bm'"
  shows "pool_inv bm'" "length (blocks bm') = length (blocks bm)"
  using assms(1) allocate_block_result [OF assms(2)]
  by (auto simp: pool_inv_def)

lemma pool_inv_deallocate_block:
  assumes "pool_inv bm" "deallocate_block bm b = Inr bm'"
  shows "pool_inv bm'" "length (blocks bm') = length (blocks bm)"
  using assms(1) deallocate_block_result [OF assms(2)]
  by (auto simp: pool_inv_def)

lemma pool_inv_blocks_update [simp]:
  "pool_inv (bm\<lparr>blocks := (blocks bm)[b := x]\<rparr>) = pool_inv bm"
  by (simp add: pool_inv_def)

lemma pool_inv_publish [simp]: "pool_inv (publish bm h toks b) = pool_inv bm"
  by (simp add: publish_def pool_inv_def)

lemma length_blocks_publish [simp]: "length (blocks (publish bm h toks b)) = length (blocks bm)"
  by (simp add: publish_def)

lemma pool_inv_decr_ref [simp]: "pool_inv (decr_ref bm b) = pool_inv bm"
  by (simp add: decr_ref_def pool_inv_def)

lemma length_blocks_decr_ref [simp]: "length (blocks (decr_ref bm b)) = length (blocks bm)"
  by (simp add: decr_ref_def)

lemma pool_inv_claim_block:
  assumes "pool_inv bm" "claim_block bm seq cm found = Inr (bm', seq', b)"
  shows "pool_inv bm' \<and> length (blocks bm') = length (blocks bm)"
  using assms
  by (auto simp: claim_block_def split: if_splits list.splits sum.splits option.splits
           dest: pool_inv_allocate_block)

lemma pool_inv_allocate_step:
  assumes "pool_inv bm" "allocate_step xxh64 (bm, seq, h, cm) i = Inr (bm', seq', h', cm')"
  shows "pool_inv bm' \<and> length (blocks bm') = length (blocks bm)"
  using assms
  by (auto simp: allocate_step_def split: sum.splits dest: pool_inv_claim_block)

lemma pool_inv_allocate_loop:
  "pool_inv bm \<Longrightarrow> allocate_loop xxh64 (bm, seq, h, cm) js = Inr (bm', seq', h', cm') \<Longrightarrow>
     pool_inv bm' \<and> length (blocks bm') = length (blocks bm)"
proof (induction js arbitrary: bm seq h cm)
  case Nil
  then show ?case by simp
next
  case (Cons j js)
  from Cons.prems(2) obtain bm1 seq1 h1 cm1 where
    step: "allocate_step xxh64 (bm, seq, h, cm) j = Inr (bm1, seq1, h1, cm1)"
    and rest: "allocate_loop xxh64 (bm1, seq1, h1, cm1) js = Inr (bm', seq', h', cm')"
    by (auto split: sum.splits)
  from pool_inv_allocate_step [OF Cons.prems(1) step] Cons.IH [OF _ rest]
  show ?case by simp
qed

lemma pool_inv_allocate:
  assumes "pool_inv bm" "allocate xxh64 bm seq = Inr (bm', seq')"
  shows "pool_inv bm' \<and> length (blocks bm') = length (blocks bm)"
  using assms
  by (auto simp: allocate_def split: if_splits sum.splits dest: pool_inv_allocate_loop)

lemma pool_inv_deallocate_loop:
  "pool_inv bm \<Longrightarrow> deallocate_loop bm bs = Inr bm' \<Longrightarrow>
     pool_inv bm' \<and> length (blocks bm') = length (blocks bm)"
proof (induction bs arbitrary: bm)
  case Nil
  then show ?case by simp
next
  case (Cons b bs)
  show ?case
  proof (cases "ref_count (blocks (decr_ref bm b) ! b) = 0")
    case True
    with Cons.prems(2) obtain bm1 where
      d: "deallocate_block (decr_ref bm b) b = Inr bm1"
      and rest: "deallocate_loop bm1 bs = Inr bm'"
      by (auto split: if_splits sum.splits)
    from Cons.prems(1) have "pool_inv (decr_ref bm b)" by simp
    from pool_inv_deallocate_block [OF this d] Cons.IH [OF _ rest]
    show ?thesis by simp
  next
    case False
    with Cons.prems(2) have rest: "deallocate_loop (decr_ref bm b) bs = Inr bm'"
      by (auto split: if_splits)
    from Cons.prems(1) have "pool_inv (decr_ref bm b)" by simp
    from Cons.IH [OF this rest] show ?thesis by simp
  qed
qed

lemma pool_inv_deallocate:
  assumes "pool_inv bm" "deallocate bm seq = Inr (bm', seq')"
  shows "pool_inv bm' \<and> length (blocks bm') = length (blocks bm)"
  using assms
  by (auto simp: deallocate_def split: sum.splits dest: pool_inv_deallocate_loop)

lemma pool_inv_may_append:
  assumes "pool_inv bm" "may_append xxh64 bm seq = Inr (bm', seq')"
  shows "pool_inv bm' \<and> length (blocks bm') = length (blocks bm)"
  using assms
  by (auto simp: may_append_def pool_inv_def split: if_splits list.splits sum.splits
           dest!: allocate_block_result(4))

lemma pool_inv_init:
  assumes "BlockManager_init n bs = Inr bm"
  shows "pool_inv bm \<and> length (blocks bm) = n"
  using assms by (auto simp: BlockManager_init_def pool_inv_def split: if_splits)

lemma pool_inv_sizes:
  assumes "pool_inv bm"
  shows "length (free_block_ids bm) + card (used_block_ids bm) = length (blocks bm)"
proof -
  from assms have d: "distinct (free_block_ids bm)"
    and i: "set (free_block_ids bm) \<inter> used_block_ids bm = {}"
    and u: "set (free_block_ids bm) \<union> used_block_ids bm = {0..<length (blocks bm)}"
    by (auto simp: pool_inv_def)
  from u have f: "finite (used_block_ids bm)"
    by (metis finite_Un finite_atLeastLessThan)
  have "card (set (free_block_ids bm) \<union> used_block_ids bm)
          = card (set (free_block_ids bm)) + card (used_block_ids bm)"
    using f i by (simp add: card_Un_disjoint)
  with u d show ?thesis by (simp add: distinct_card)
qed

text \<open>
  The states of a manager created with \<open>n\<close> blocks that are reachable by calls of
  \<^verbatim>\<open>allocate\<close>, \<^verbatim>\<open>deallocate\<close> and \<^verbatim>\<open>may_append\<close> that return, on any sequences at all.
\<close>

inductive reachable_bm :: "digest \<Rightarrow> nat \<Rightarrow> nat \<Rightarrow> BlockManager \<Rightarrow> bool"
  for xxh64 :: digest and n :: nat and bs :: nat where
  init: "BlockManager_init n bs = Inr bm \<Longrightarrow> reachable_bm xxh64 n bs bm"
| after_allocate:
    "reachable_bm xxh64 n bs bm \<Longrightarrow> allocate xxh64 bm seq = Inr (bm', seq')
       \<Longrightarrow> reachable_bm xxh64 n bs bm'"
| after_deallocate:
    "reachable_bm xxh64 n bs bm \<Longrightarrow> deallocate bm seq = Inr (bm', seq')
       \<Longrightarrow> reachable_bm xxh64 n bs bm'"
| after_may_append:
    "reachable_bm xxh64 n bs bm \<Longrightarrow> may_append xxh64 bm seq = Inr (bm', seq')
       \<Longrightarrow> reachable_bm xxh64 n bs bm'"

lemma reachable_bm_pool_inv:
  "reachable_bm xxh64 n bs bm \<Longrightarrow> pool_inv bm \<and> length (blocks bm) = n"
proof (induction rule: reachable_bm.induct)
  case (init bm)
  then show ?case by (rule pool_inv_init)
next
  case (after_allocate bm seq bm' seq')
  then show ?case using pool_inv_allocate by metis
next
  case (after_deallocate bm seq bm' seq')
  then show ?case using pool_inv_deallocate by metis
next
  case (after_may_append bm seq bm' seq')
  then show ?case using pool_inv_may_append by metis
qed

text \<open>
  Claim C3.  In every reachable state of a manager with \<open>n\<close> blocks, and so after every
  operation, the ids in the free deque are distinct, none of them is in the used set,
  and the sizes of the two add up to \<open>n\<close>.
\<close>

theorem pool_conservation:
  assumes "reachable_bm xxh64 n bs bm"
  shows "distinct (free_block_ids bm)
     \<and> set (free_block_ids bm) \<inter> used_block_ids bm = {}
     \<and> length (free_block_ids bm) + card (used_block_ids bm) = n"
  using reachable_bm_pool_inv [OF assms] pool_inv_sizes [of bm]
  by (auto simp: pool_inv_def)


lemma allocate_1234_run:
  "\<exists>bm1 seq1. allocate XXH64 bm_fresh8 seq_1234 = Inr (bm1, seq1)
      \<and> free_block_ids bm1 = [1, 2, 3, 4, 5, 6, 7] \<and> used_block_ids bm1 = {0}"
  by (simp add: bm_fresh8_def seq_1234_def eval_defs hash_1234)

text \<open>A reachable state for claim C3: the fresh pool of 8 blocks after one allocation.\<close>

theorem pool_conservation_witness:
  "\<exists>bm. reachable_bm XXH64 8 4 bm
      \<and> free_block_ids bm = [1, 2, 3, 4, 5, 6, 7] \<and> used_block_ids bm = {0}
      \<and> distinct (free_block_ids bm)
      \<and> set (free_block_ids bm) \<inter> used_block_ids bm = {}
      \<and> length (free_block_ids bm) + card (used_block_ids bm) = 8"
proof -
  from allocate_1234_run obtain bm1 seq1 where
    a: "allocate XXH64 bm_fresh8 seq_1234 = Inr (bm1, seq1)"
    and f: "free_block_ids bm1 = [1, 2, 3, 4, 5, 6, 7]" "used_block_ids bm1 = {0}"
    by blast
  have "reachable_bm XXH64 8 4 bm_fresh8"
    by (rule reachable_bm.init) (rule bm_fresh8_init)
  then have r: "reachable_bm XXH64 8 4 bm1"
    using a by (rule reachable_bm.after_allocate)
  from pool_conservation [OF r] r f show ?thesis by blast
qed


section \<open>Reference counts\<close>

definition used_ok :: "BlockManager \<Rightarrow> bool" where
  "used_ok bm \<longleftrightarrow>
     (\<forall>b < length (blocks bm). b \<in> used_block_ids bm \<longleftrightarrow> 0 < ref_count (blocks bm ! b))"

definition refs_nonneg :: "BlockManager \<Rightarrow> bool" where
  "refs_nonneg bm \<longleftrightarrow> (\<forall>b < length (blocks bm). 0 \<le> ref_count (blocks bm ! b))"

definition index_ok :: "BlockManager \<Rightarrow> bool" where
  "index_ok bm \<longleftrightarrow> (\<forall>h b. hash_to_block_id bm h = Some b \<longrightarrow> b < length (blocks bm))"

definition wf_bm :: "BlockManager \<Rightarrow> bool" where
  "wf_bm bm \<longleftrightarrow> pool_inv bm \<and> used_ok bm \<and> refs_nonneg bm \<and> index_ok bm"

text \<open>\<open>gains bm bm' b\<close>: from \<open>bm\<close> to \<open>bm'\<close> the block \<open>b\<close> gained one reference and became
  (or stayed) used, and nothing else changed in the counts.\<close>

definition gains :: "BlockManager \<Rightarrow> BlockManager \<Rightarrow> nat \<Rightarrow> bool" where
  "gains bm bm' b \<longleftrightarrow>
     b < length (blocks bm)
     \<and> length (blocks bm') = length (blocks bm)
     \<and> BlockManager.block_size bm' = BlockManager.block_size bm
     \<and> (\<forall>c < length (blocks bm).
           ref_count (blocks bm' ! c) = ref_count (blocks bm ! c) + (if c = b then 1 else 0))
     \<and> used_block_ids bm' = insert b (used_block_ids bm)
     \<and> (b \<in> used_block_ids bm \<or> ref_count (blocks bm ! b) = 0)
     \<and> length (free_block_ids bm) \<le> Suc (length (free_block_ids bm'))"

lemma allocate_block_gains:
  assumes "allocate_block bm b = Inr bm'"
  shows "gains bm bm' b" "hash_to_block_id bm' = hash_to_block_id bm"
  using allocate_block_result [OF assms]
  by (auto simp: gains_def reset_def nth_list_update length_remove1)

lemma claim_block_gains:
  assumes p: "pool_inv bm" and c: "claim_block bm seq cm found = Inr (bm', seq', b)"
  shows "gains bm bm' b" "hash_to_block_id bm' = hash_to_block_id bm"
proof -
  have used_lt: "\<And>x. x \<in> used_block_ids bm \<Longrightarrow> x < length (blocks bm)"
    using p by (auto simp: pool_inv_def)
  consider (fresh) "allocate_block bm b = Inr bm'"
    | (shared) "b \<in> used_block_ids bm"
        "bm' = bm\<lparr>blocks := (blocks bm)
                 [b := (blocks bm ! b)\<lparr>ref_count := ref_count (blocks bm ! b) + 1\<rparr>]\<rparr>"
    using c by (auto simp: claim_block_def split: if_splits list.splits sum.splits option.splits)
  then have "gains bm bm' b \<and> hash_to_block_id bm' = hash_to_block_id bm"
  proof cases
    case fresh
    then show ?thesis by (simp add: allocate_block_gains)
  next
    case shared
    with used_lt [of b] show ?thesis
      by (auto simp: gains_def nth_list_update)
  qed
  then show "gains bm bm' b" "hash_to_block_id bm' = hash_to_block_id bm" by simp_all
qed

lemma publish_fields [simp]:
  "free_block_ids (publish bm h toks b) = free_block_ids bm"
  "used_block_ids (publish bm h toks b) = used_block_ids bm"
  "BlockManager.block_size (publish bm h toks b) = BlockManager.block_size bm"
  by (simp_all add: publish_def)

lemma publish_ref_count [simp]:
  "ref_count (blocks (publish bm h toks b) ! c) = ref_count (blocks bm ! c)"
  by (cases "b < length (blocks bm)")
     (auto simp: publish_def update_def nth_list_update list_update_beyond)

lemma index_ok_publish:
  "index_ok bm \<Longrightarrow> b < length (blocks bm) \<Longrightarrow> index_ok (publish bm h toks b)"
  by (auto simp: index_ok_def publish_def)

lemma gains_publish: "gains bm bm1 b \<Longrightarrow> gains bm (publish bm1 h toks b) b"
  by (simp add: gains_def)

lemma gains_used_ok:
  assumes g: "gains bm bm' b" and u: "used_ok bm"
  shows "used_ok bm'"
  unfolding used_ok_def
proof (intro allI impI)
  fix c assume "c < length (blocks bm')"
  with g have c: "c < length (blocks bm)" by (simp add: gains_def)
  show "c \<in> used_block_ids bm' \<longleftrightarrow> 0 < ref_count (blocks bm' ! c)"
  proof (cases "c = b")
    case True
    from g u have "0 \<le> ref_count (blocks bm ! b)" by (auto simp: used_ok_def gains_def)
    with True g c show ?thesis by (simp add: gains_def)
  next
    case False
    with g c u show ?thesis by (simp add: used_ok_def gains_def)
  qed
qed

lemma gains_refs_nonneg: "gains bm bm' b \<Longrightarrow> refs_nonneg bm \<Longrightarrow> refs_nonneg bm'"
  by (auto simp: gains_def refs_nonneg_def)

lemma allocate_step_cases:
  assumes s: "allocate_step xxh64 (bm, seq, h, cm) i = Inr (bm', seq', h', cm')"
  obtains toks miss bm1 seq1 b where
    "block seq (int i) = Inr toks"
    "(if length toks = BlockManager.block_size bm
      then compute_hash xxh64 toks h else Inr (- 1)) = Inr h'"
    "miss_test bm (hash_to_block_id bm h') toks = Inr miss"
    "claim_block bm seq (cm \<or> miss) (hash_to_block_id bm h') = Inr (bm1, seq1, b)"
    "bm' = publish bm1 h' toks b"
    "seq' = seq1\<lparr>block_table := block_table seq1 @ [b]\<rparr>"
    "cm' = (cm \<or> miss)"
proof -
  obtain toks where 1: "block seq (int i) = Inr toks"
    using s by (cases "block seq (int i)") (simp_all add: allocate_step_def)
  obtain h1 where 2: "(if length toks = BlockManager.block_size bm
      then compute_hash xxh64 toks h else Inr (- 1)) = Inr h1"
    using s 1 by (cases "if length toks = BlockManager.block_size bm
      then compute_hash xxh64 toks h else Inr (- 1)") (simp_all add: allocate_step_def)
  obtain miss where 3: "miss_test bm (hash_to_block_id bm h1) toks = Inr miss"
    using s 1 2 by (cases "miss_test bm (hash_to_block_id bm h1) toks")
      (simp_all add: allocate_step_def)
  obtain bm1 seq1 b where
    4: "claim_block bm seq (cm \<or> miss) (hash_to_block_id bm h1) = Inr (bm1, seq1, b)"
    using s 1 2 3 by (cases "claim_block bm seq (cm \<or> miss) (hash_to_block_id bm h1)")
      (auto simp add: allocate_step_def)
  from s 1 2 3 4 have "bm' = publish bm1 h1 toks b"
    "seq' = seq1\<lparr>block_table := block_table seq1 @ [b]\<rparr>" "h' = h1" "cm' = (cm \<or> miss)"
    by (auto simp add: allocate_step_def)
  with 1 2 3 4 that show thesis by blast
qed

text \<open>One iteration of \<^verbatim>\<open>allocate\<close>: the table grows by the block that gained the
  reference.\<close>

lemma allocate_step_gains:
  assumes p: "pool_inv bm"
    and s: "allocate_step xxh64 (bm, seq, h, cm) i = Inr (bm', seq', h', cm')"
  shows "\<exists>b. gains bm bm' b \<and> block_table seq' = block_table seq @ [b]"
    and "index_ok bm \<Longrightarrow> index_ok bm'"
proof -
  from s obtain toks miss bm1 seq1 b where
    c: "claim_block bm seq (cm \<or> miss) (hash_to_block_id bm h') = Inr (bm1, seq1, b)"
    and bm': "bm' = publish bm1 h' toks b"
    and seq': "seq' = seq1\<lparr>block_table := block_table seq1 @ [b]\<rparr>"
    by (rule allocate_step_cases)
  note g = claim_block_gains [OF p c]
  from claim_block_seq [OF c] seq' have t: "block_table seq' = block_table seq @ [b]" by auto
  from g(1) bm' t show "\<exists>b. gains bm bm' b \<and> block_table seq' = block_table seq @ [b]"
    by (auto intro: gains_publish)
  assume "index_ok bm"
  with g have "index_ok bm1" "b < length (blocks bm1)" by (simp_all add: index_ok_def gains_def)
  with bm' show "index_ok bm'" by (simp add: index_ok_publish)
qed

lemma wf_bm_allocate_step:
  assumes w: "wf_bm bm"
    and s: "allocate_step xxh64 (bm, seq, h, cm) i = Inr (bm', seq', h', cm')"
  shows "wf_bm bm'"
proof -
  from w have p: "pool_inv bm" by (simp add: wf_bm_def)
  from allocate_step_gains(1) [OF p s] obtain b where g: "gains bm bm' b" by blast
  from w g allocate_step_gains(2) [OF p s] pool_inv_allocate_step [OF p s]
  show ?thesis by (auto simp: wf_bm_def intro: gains_used_ok gains_refs_nonneg)
qed

lemma allocate_loop_refs:
  "pool_inv bm \<Longrightarrow> allocate_loop xxh64 (bm, seq, h, cm) js = Inr (bm', seq', h', cm') \<Longrightarrow>
     \<exists>bs. block_table seq' = block_table seq @ bs
        \<and> (\<forall>b \<in> set bs. b < length (blocks bm))
        \<and> (\<forall>c < length (blocks bm).
              ref_count (blocks bm' ! c) = ref_count (blocks bm ! c) + int (count_list bs c))"
proof (induction js arbitrary: bm seq h cm)
  case Nil
  then show ?case by simp
next
  case (Cons j js)
  from Cons.prems(2) obtain bm1 seq1 h1 cm1 where
    step: "allocate_step xxh64 (bm, seq, h, cm) j = Inr (bm1, seq1, h1, cm1)"
    and rest: "allocate_loop xxh64 (bm1, seq1, h1, cm1) js = Inr (bm', seq', h', cm')"
    by (auto split: sum.splits)
  from allocate_step_gains(1) [OF Cons.prems(1) step] obtain b where
    g: "gains bm bm1 b" and t1: "block_table seq1 = block_table seq @ [b]" by blast
  from pool_inv_allocate_step [OF Cons.prems(1) step] have p1: "pool_inv bm1"
    and l1: "length (blocks bm1) = length (blocks bm)" by simp_all
  from Cons.IH [OF p1 rest] obtain bs where
    t: "block_table seq' = block_table seq1 @ bs"
    and lt: "\<forall>b \<in> set bs. b < length (blocks bm1)"
    and r: "\<forall>c < length (blocks bm1).
              ref_count (blocks bm' ! c) = ref_count (blocks bm1 ! c) + int (count_list bs c)"
    by blast
  have "block_table seq' = block_table seq @ (b # bs)" using t t1 by simp
  moreover have "\<forall>x \<in> set (b # bs). x < length (blocks bm)"
    using lt l1 g by (simp add: gains_def)
  moreover have "\<forall>c < length (blocks bm).
      ref_count (blocks bm' ! c) = ref_count (blocks bm ! c) + int (count_list (b # bs) c)"
    using r l1 g by (auto simp: gains_def)
  ultimately show ?case by blast
qed

lemma wf_bm_allocate_loop:
  "wf_bm bm \<Longrightarrow> allocate_loop xxh64 (bm, seq, h, cm) js = Inr (bm', seq', h', cm') \<Longrightarrow>
     wf_bm bm'"
proof (induction js arbitrary: bm seq h cm)
  case Nil
  then show ?case by simp
next
  case (Cons j js)
  from Cons.prems(2) obtain bm1 seq1 h1 cm1 where
    step: "allocate_step xxh64 (bm, seq, h, cm) j = Inr (bm1, seq1, h1, cm1)"
    and rest: "allocate_loop xxh64 (bm1, seq1, h1, cm1) js = Inr (bm', seq', h', cm')"
    by (auto split: sum.splits)
  from Cons.IH [OF wf_bm_allocate_step [OF Cons.prems(1) step] rest] show ?case .
qed

lemma allocate_refs:
  assumes p: "pool_inv bm" and a: "allocate xxh64 bm seq = Inr (bm', seq')"
  shows "(\<forall>b \<in> set (block_table seq'). b < length (blocks bm))
     \<and> (\<forall>c < length (blocks bm).
           ref_count (blocks bm' ! c)
             = ref_count (blocks bm ! c) + int (count_list (block_table seq') c))"
proof -
  from a have e: "block_table seq = []"
    by (auto simp: allocate_def split: if_splits)
  from a obtain n h cm where
    l: "allocate_loop xxh64 (bm, seq, - 1, False) [0..<n] = Inr (bm', seq', h, cm)"
    by (auto simp: allocate_def split: if_splits sum.splits)
  from allocate_loop_refs [OF p l] e show ?thesis by auto
qed

lemma wf_bm_allocate:
  assumes "wf_bm bm" "allocate xxh64 bm seq = Inr (bm', seq')"
  shows "wf_bm bm'"
  using assms
  by (auto simp: allocate_def split: if_splits sum.splits dest: wf_bm_allocate_loop)


subsection \<open>\<^verbatim>\<open>allocate\<close> returns when \<^verbatim>\<open>can_allocate\<close> holds\<close>

definition hash_value_ok :: "int \<Rightarrow> bool" where
  "hash_value_ok h \<longleftrightarrow> h = - 1 \<or> (0 \<le> h \<and> h < 2 ^ 64)"

lemma compute_hash_returns:
  assumes "hash_value_ok h"
  shows "\<exists>h'. compute_hash xxh64 toks h = Inr h' \<and> h' \<noteq> - 1 \<and> hash_value_ok h'"
proof -
  have b: "0 \<le> uint w" "uint w < 2 ^ 64" for w :: "64 word"
    using uint_nonnegative [of w] uint_bounded [of w] by simp_all
  have "uint w \<noteq> - 1" for w :: "64 word"
    using b(1) [of w] by arith
  with b assms show ?thesis
    by (auto simp: compute_hash_def to_bytes_def hash_value_ok_def)
qed

lemma free_block_unreferenced:
  assumes w: "wf_bm bm" and b: "b < length (blocks bm)" "b \<notin> used_block_ids bm"
  shows "ref_count (blocks bm ! b) = 0" "b \<in> set (free_block_ids bm)"
proof -
  from w b have "\<not> 0 < ref_count (blocks bm ! b)" "0 \<le> ref_count (blocks bm ! b)"
    by (auto simp: wf_bm_def used_ok_def refs_nonneg_def)
  then show "ref_count (blocks bm ! b) = 0" by simp
  from w b show "b \<in> set (free_block_ids bm)"
    by (auto simp: wf_bm_def pool_inv_def)
qed

lemma allocate_block_returns:
  assumes w: "wf_bm bm" and b: "b < length (blocks bm)" "b \<notin> used_block_ids bm"
  shows "\<exists>bm'. allocate_block bm b = Inr bm'"
  using free_block_unreferenced [OF w b] b by (simp add: allocate_block_def)

lemma claim_block_returns:
  assumes w: "wf_bm bm" and f: "free_block_ids bm \<noteq> []"
    and m: "cm \<or> (\<exists>b. found = Some b \<and> b < length (blocks bm))"
  shows "\<exists>r. claim_block bm seq cm found = Inr r"
proof (cases cm)
  case True
  from f obtain b rest where fr: "free_block_ids bm = b # rest" by (cases "free_block_ids bm") auto
  with w have "b < length (blocks bm)" "b \<notin> used_block_ids bm"
    by (auto simp: wf_bm_def pool_inv_def)
  from allocate_block_returns [OF w this] True fr show ?thesis
    by (auto simp: claim_block_def)
next
  case False
  with m obtain b where fo: "found = Some b" and b: "b < length (blocks bm)" by blast
  show ?thesis
  proof (cases "b \<in> used_block_ids bm")
    case True
    with False fo show ?thesis by (simp add: claim_block_def)
  next
    case nu: False
    from allocate_block_returns [OF w b nu] False fo nu show ?thesis
      by (auto simp: claim_block_def)
  qed
qed

lemma allocate_step_returns:
  assumes w: "wf_bm bm" and f: "free_block_ids bm \<noteq> []"
    and n: "num_blocks seq = Inr n" "i < n" and h: "hash_value_ok h"
  shows "\<exists>bm' seq' h' cm'. allocate_step xxh64 (bm, seq, h, cm) i = Inr (bm', seq', h', cm')
            \<and> hash_value_ok h'"
proof -
  from n obtain toks where t: "block seq (int i) = Inr toks" by (simp add: block_def)
  obtain h1 where h1: "(if length toks = BlockManager.block_size bm
      then compute_hash xxh64 toks h else Inr (- 1)) = Inr h1" and ok: "hash_value_ok h1"
  proof (cases "length toks = BlockManager.block_size bm")
    case True
    with compute_hash_returns [OF h, of xxh64 toks] that show ?thesis by auto
  next
    case False
    with that [of "- 1"] show ?thesis by (simp add: hash_value_ok_def)
  qed
  from w have io: "index_ok bm" by (simp add: wf_bm_def)
  obtain miss where mt: "miss_test bm (hash_to_block_id bm h1) toks = Inr miss"
    and mb: "miss \<or> (\<exists>b. hash_to_block_id bm h1 = Some b \<and> b < length (blocks bm))"
    using io by (cases "hash_to_block_id bm h1") (auto simp: miss_test_def index_ok_def)
  from mb have "(cm \<or> miss) \<or> (\<exists>b. hash_to_block_id bm h1 = Some b \<and> b < length (blocks bm))"
    by blast
  from claim_block_returns [OF w f this] obtain bm1 seq1 b where
    "claim_block bm seq (cm \<or> miss) (hash_to_block_id bm h1) = Inr (bm1, seq1, b)"
    by (metis prod_cases3)
  with t h1 mt ok show ?thesis by (simp add: allocate_step_def)
qed

lemma allocate_loop_returns:
  "wf_bm bm \<Longrightarrow> length js \<le> length (free_block_ids bm) \<Longrightarrow> num_blocks seq = Inr n
     \<Longrightarrow> \<forall>j \<in> set js. j < n \<Longrightarrow> hash_value_ok h
     \<Longrightarrow> \<exists>r. allocate_loop xxh64 (bm, seq, h, cm) js = Inr r"
proof (induction js arbitrary: bm seq h cm)
  case Nil
  then show ?case by simp
next
  case (Cons j js)
  from Cons.prems(2) have f: "free_block_ids bm \<noteq> []" by auto
  from Cons.prems(4) have j: "j < n" by simp
  from allocate_step_returns [OF Cons.prems(1) f Cons.prems(3) j Cons.prems(5)]
  obtain bm1 seq1 h1 cm1 where
    step: "allocate_step xxh64 (bm, seq, h, cm) j = Inr (bm1, seq1, h1, cm1)"
    and ok: "hash_value_ok h1" by blast
  from Cons.prems(1) have p: "pool_inv bm" by (simp add: wf_bm_def)
  from allocate_step_gains(1) [OF p step] Cons.prems(2)
  have len: "length js \<le> length (free_block_ids bm1)" by (auto simp: gains_def)
  from allocate_step_seq [OF step] Cons.prems(3) have n1: "num_blocks seq1 = Inr n"
    by (auto simp: num_blocks_def split: if_splits)
  from Cons.prems(4) have "\<forall>j \<in> set js. j < n" by simp
  from Cons.IH [OF wf_bm_allocate_step [OF Cons.prems(1) step] len n1 this ok] step
  show ?case by simp
qed

lemma allocate_returns:
  assumes w: "wf_bm bm" and e: "block_table seq = []" and c: "can_allocate bm seq = Inr True"
  shows "\<exists>bm' seq'. allocate xxh64 bm seq = Inr (bm', seq')"
proof -
  from c obtain n where n: "num_blocks seq = Inr n" and l: "n \<le> length (free_block_ids bm)"
    by (auto simp: can_allocate_def split: sum.splits)
  have "\<exists>r. allocate_loop xxh64 (bm, seq, - 1, False) [0..<n] = Inr r"
    by (rule allocate_loop_returns [OF w _ n]) (use l in \<open>simp_all add: hash_value_ok_def\<close>)
  then obtain bm' seq' h' cm' where
    "allocate_loop xxh64 (bm, seq, - 1, False) [0..<n] = Inr (bm', seq', h', cm')"
    by (metis prod_cases4)
  with e n show ?thesis by (simp add: allocate_def)
qed

subsection \<open>\<^verbatim>\<open>deallocate\<close>\<close>

lemma deallocate_loop_effect:
  "pool_inv bm \<Longrightarrow> used_ok bm \<Longrightarrow> \<forall>b \<in> set bs. b < length (blocks bm) \<Longrightarrow>
     \<exists>bm'. deallocate_loop bm bs = Inr bm'
        \<and> pool_inv bm' \<and> used_ok bm' \<and> length (blocks bm') = length (blocks bm)
        \<and> (\<forall>c < length (blocks bm).
              ref_count (blocks bm' ! c) = ref_count (blocks bm ! c) - int (count_list bs c))"
proof (induction bs arbitrary: bm)
  case Nil
  then show ?case by simp
next
  case (Cons b bs)
  let ?d = "decr_ref bm b"
  from Cons.prems(3) have b: "b < length (blocks bm)" by simp
  have rd: "\<forall>c < length (blocks bm).
      ref_count (blocks ?d ! c) = ref_count (blocks bm ! c) - (if c = b then 1 else 0)"
    by (simp add: decr_ref_def nth_list_update)
  have fd: "used_block_ids ?d = used_block_ids bm" "free_block_ids ?d = free_block_ids bm"
    by (simp_all add: decr_ref_def)
  obtain bm1 where
    one: "(if ref_count (blocks ?d ! b) = 0 then deallocate_block ?d b else Inr ?d) = Inr bm1"
    and p1: "pool_inv bm1" and u1: "used_ok bm1"
    and l1: "length (blocks bm1) = length (blocks bm)"
    and r1: "\<forall>c < length (blocks bm). ref_count (blocks bm1 ! c) = ref_count (blocks ?d ! c)"
  proof (cases "ref_count (blocks ?d ! b) = 0")
    case True
    with rd b have "ref_count (blocks bm ! b) = 1" by simp
    with Cons.prems(2) b have bu: "b \<in> used_block_ids bm" by (simp add: used_ok_def)
    let ?r = "?d\<lparr>used_block_ids := used_block_ids ?d - {b},
                  free_block_ids := free_block_ids ?d @ [b]\<rparr>"
    from True b bu fd have d: "deallocate_block ?d b = Inr ?r"
      by (simp add: deallocate_block_def)
    from Cons.prems(1) have "pool_inv ?d" by simp
    from pool_inv_deallocate_block [OF this d] have "pool_inv ?r" by simp
    moreover have "used_ok ?r"
      using Cons.prems(2) rd True fd by (auto simp: used_ok_def)
    ultimately show ?thesis using that [of ?r] True d by simp
  next
    case False
    have "used_ok ?d"
      unfolding used_ok_def
    proof (intro allI impI)
      fix c assume "c < length (blocks ?d)"
      then have c: "c < length (blocks bm)" by simp
      show "c \<in> used_block_ids ?d \<longleftrightarrow> 0 < ref_count (blocks ?d ! c)"
      proof (cases "c = b")
        case True
        with False rd c Cons.prems(2) fd show ?thesis by (auto simp: used_ok_def)
      next
        case ne: False
        with rd c Cons.prems(2) fd show ?thesis by (auto simp: used_ok_def)
      qed
    qed
    with False Cons.prems(1) show ?thesis using that [of ?d] by simp
  qed
  from Cons.prems(3) l1 have "\<forall>b \<in> set bs. b < length (blocks bm1)" by simp
  from Cons.IH [OF p1 u1 this] obtain bm' where
    rest: "deallocate_loop bm1 bs = Inr bm'"
    and inv: "pool_inv bm'" "used_ok bm'" "length (blocks bm') = length (blocks bm1)"
    and r: "\<forall>c < length (blocks bm1).
              ref_count (blocks bm' ! c) = ref_count (blocks bm1 ! c) - int (count_list bs c)"
    by blast
  from one rest b have "deallocate_loop bm (b # bs) = Inr bm'"
    by (auto split: if_splits)
  moreover have "\<forall>c < length (blocks bm).
      ref_count (blocks bm' ! c) = ref_count (blocks bm ! c) - int (count_list (b # bs) c)"
    using r r1 rd l1 by auto
  ultimately show ?case using inv l1 by simp
qed


subsection \<open>Allocating and releasing\<close>

lemma wf_bm_init:
  assumes "BlockManager_init n bs = Inr bm"
  shows "wf_bm bm"
proof -
  from assms have bm: "bm = \<lparr>block_size = bs, blocks = map Block_init [0..<n],
      hash_to_block_id = Map.empty, free_block_ids = [0..<n], used_block_ids = {}\<rparr>"
    by (auto simp: BlockManager_init_def split: if_splits)
  show ?thesis
    unfolding wf_bm_def pool_inv_def used_ok_def refs_nonneg_def index_ok_def
    by (simp add: bm Block_init_def)
qed

lemma used_determined:
  assumes p: "pool_inv bm" "pool_inv bm'" and u: "used_ok bm" "used_ok bm'"
    and l: "length (blocks bm') = length (blocks bm)"
    and r: "\<forall>c < length (blocks bm). ref_count (blocks bm' ! c) = ref_count (blocks bm ! c)"
  shows "used_block_ids bm' = used_block_ids bm"
    and "length (free_block_ids bm') = length (free_block_ids bm)"
proof -
  have lt: "\<And>x. x \<in> used_block_ids bm \<Longrightarrow> x < length (blocks bm)"
    "\<And>x. x \<in> used_block_ids bm' \<Longrightarrow> x < length (blocks bm)"
    using p l by (auto simp: pool_inv_def)
  have r': "ref_count (blocks bm' ! x) = ref_count (blocks bm ! x)" if "x < length (blocks bm)" for x
    using r that by blast
  show eq: "used_block_ids bm' = used_block_ids bm"
  proof (rule set_eqI)
    fix x
    show "x \<in> used_block_ids bm' \<longleftrightarrow> x \<in> used_block_ids bm"
    proof
      assume x: "x \<in> used_block_ids bm'"
      then have n: "x < length (blocks bm)" by (rule lt(2))
      with x u(2) l have "0 < ref_count (blocks bm' ! x)" by (simp add: used_ok_def)
      with r' [OF n] have "0 < ref_count (blocks bm ! x)" by (simp only:)
      with n u(1) show "x \<in> used_block_ids bm" by (simp add: used_ok_def)
    next
      assume x: "x \<in> used_block_ids bm"
      then have n: "x < length (blocks bm)" by (rule lt(1))
      with x u(1) have "0 < ref_count (blocks bm ! x)" by (simp add: used_ok_def)
      with r' [OF n] have "0 < ref_count (blocks bm' ! x)" by (simp only:)
      with n u(2) l show "x \<in> used_block_ids bm'" by (simp add: used_ok_def)
    qed
  qed
  have a: "length (free_block_ids bm) + card (used_block_ids bm) = length (blocks bm)"
    by (rule pool_inv_sizes [OF p(1)])
  have b: "length (free_block_ids bm') + card (used_block_ids bm) = length (blocks bm)"
    using pool_inv_sizes [OF p(2)] by (simp only: eq l)
  from a b show "length (free_block_ids bm') = length (free_block_ids bm)" by arith
qed

text \<open>
  Claim C6.  In a well-formed manager state (the free deque and the used set partition
  the block ids, a block is used exactly when its \<^verbatim>\<open>ref_count\<close> is positive, no count
  is negative, and the dedup index holds ids of the pool) and for a sequence with an
  empty block table for which \<^verbatim>\<open>can_allocate\<close> holds, \<^verbatim>\<open>allocate\<close> returns, the following
  \<^verbatim>\<open>deallocate\<close> returns, and together they restore the size of the free pool, the used
  set and every \<^verbatim>\<open>ref_count\<close>, leaving the table empty and \<^verbatim>\<open>num_cached_tokens\<close> zero.
  \<^verbatim>\<open>deallocate\<close> on a sequence whose table is empty leaves the whole manager, in any
  state, as it was.
\<close>

theorem allocate_deallocate_roundtrip:
  assumes w: "wf_bm bm" and e: "block_table seq = []" and c: "can_allocate bm seq = Inr True"
  shows "(\<exists>bm1 seq1 bm2 seq2.
            allocate xxh64 bm seq = Inr (bm1, seq1)
            \<and> deallocate bm1 seq1 = Inr (bm2, seq2)
            \<and> length (free_block_ids bm2) = length (free_block_ids bm)
            \<and> card (used_block_ids bm2) = card (used_block_ids bm)
            \<and> used_block_ids bm2 = used_block_ids bm
            \<and> (\<forall>b < length (blocks bm).
                  ref_count (blocks bm2 ! b) = ref_count (blocks bm ! b))
            \<and> block_table seq2 = [] \<and> num_cached_tokens seq2 = 0)
     \<and> (block_table seq0 = []
          \<longrightarrow> (\<exists>seq0'. deallocate bm0 seq0 = Inr (bm0, seq0')
                 \<and> block_table seq0' = [] \<and> num_cached_tokens seq0' = 0))"
proof
  from allocate_returns [OF w e c] obtain bm1 seq1 where
    a: "allocate xxh64 bm seq = Inr (bm1, seq1)" by blast
  from w have p: "pool_inv bm" and u: "used_ok bm" by (simp_all add: wf_bm_def)
  from wf_bm_allocate [OF w a] have p1: "pool_inv bm1" and u1: "used_ok bm1"
    by (simp_all add: wf_bm_def)
  from pool_inv_allocate [OF p a] have l1: "length (blocks bm1) = length (blocks bm)" by simp
  from allocate_refs [OF p a] have
    lt: "\<forall>b \<in> set (block_table seq1). b < length (blocks bm)"
    and r1: "\<forall>c < length (blocks bm). ref_count (blocks bm1 ! c)
               = ref_count (blocks bm ! c) + int (count_list (block_table seq1) c)"
    by simp_all
  from lt l1 have "\<forall>b \<in> set (rev (block_table seq1)). b < length (blocks bm1)" by simp
  from deallocate_loop_effect [OF p1 u1 this] obtain bm2 where
    d: "deallocate_loop bm1 (rev (block_table seq1)) = Inr bm2"
    and p2: "pool_inv bm2" and u2: "used_ok bm2"
    and l2: "length (blocks bm2) = length (blocks bm1)"
    and r2: "\<forall>c < length (blocks bm1). ref_count (blocks bm2 ! c)
               = ref_count (blocks bm1 ! c) - int (count_list (rev (block_table seq1)) c)"
    by blast
  let ?seq2 = "seq1\<lparr>num_cached_tokens := 0, block_table := []\<rparr>"
  from d have dd: "deallocate bm1 seq1 = Inr (bm2, ?seq2)" by (simp add: deallocate_def)
  from r1 r2 l1 have r: "\<forall>c < length (blocks bm). ref_count (blocks bm2 ! c)
      = ref_count (blocks bm ! c)" by simp
  from l1 l2 have l: "length (blocks bm2) = length (blocks bm)" by simp
  note same = used_determined [OF p p2 u u2 l r]
  from a dd same r show "\<exists>bm1 seq1 bm2 seq2.
            allocate xxh64 bm seq = Inr (bm1, seq1)
            \<and> deallocate bm1 seq1 = Inr (bm2, seq2)
            \<and> length (free_block_ids bm2) = length (free_block_ids bm)
            \<and> card (used_block_ids bm2) = card (used_block_ids bm)
            \<and> used_block_ids bm2 = used_block_ids bm
            \<and> (\<forall>b < length (blocks bm).
                  ref_count (blocks bm2 ! b) = ref_count (blocks bm ! b))
            \<and> block_table seq2 = [] \<and> num_cached_tokens seq2 = 0"
    by (intro exI [of _ bm1] exI [of _ seq1] exI [of _ bm2] exI [of _ ?seq2]) simp
next
  show "block_table seq0 = []
          \<longrightarrow> (\<exists>seq0'. deallocate bm0 seq0 = Inr (bm0, seq0')
                 \<and> block_table seq0' = [] \<and> num_cached_tokens seq0' = 0)"
    by (simp add: deallocate_def)
qed

text \<open>The hypotheses of claim C6 hold of the fresh pool of 8 blocks and the prompt
  [1, 2, 3, 4].\<close>

theorem allocate_deallocate_roundtrip_witness:
  "wf_bm bm_fresh8 \<and> block_table seq_1234 = [] \<and> can_allocate bm_fresh8 seq_1234 = Inr True
   \<and> (\<exists>bm1 seq1 bm2 seq2.
        allocate XXH64 bm_fresh8 seq_1234 = Inr (bm1, seq1)
        \<and> deallocate bm1 seq1 = Inr (bm2, seq2)
        \<and> length (free_block_ids bm2) = 8 \<and> used_block_ids bm2 = {}
        \<and> block_table seq2 = [] \<and> num_cached_tokens seq2 = 0)
   \<and> (\<exists>seq'. deallocate bm_fresh8 seq_1234 = Inr (bm_fresh8, seq'))"
proof -
  have w: "wf_bm bm_fresh8" by (rule wf_bm_init [OF bm_fresh8_init])
  have e: "block_table seq_1234 = []" by (simp add: seq_1234_def)
  have c: "can_allocate bm_fresh8 seq_1234 = Inr True"
    by (simp add: can_allocate_def num_blocks_def seq_1234_def bm_fresh8_def)
  have f: "length (free_block_ids bm_fresh8) = 8" "used_block_ids bm_fresh8 = {}"
    by (simp_all add: bm_fresh8_def)
  from allocate_deallocate_roundtrip [OF w e c, of XXH64 seq_1234 bm_fresh8] w e c f
  show ?thesis by auto
qed


section \<open>A manager and its sequences\<close>

text \<open>
  The block manager keeps no reference to the sequences it serves, so a claim that
  relates blocks to block tables is about a manager together with a collection of
  sequences.  A system state is the manager and the list of all \<^verbatim>\<open>Sequence\<close> objects
  created so far; an operation creates a sequence (with the manager's block size as the
  class attribute), or applies \<^verbatim>\<open>allocate\<close>, \<^verbatim>\<open>deallocate\<close>, \<^verbatim>\<open>may_append\<close> or
  \<^verbatim>\<open>append_token\<close> to the \<open>i\<close>-th of them.  Naming a sequence that does not exist is an
  error of the harness, not of the source.
\<close>

datatype op =
  New "int list" SamplingParams
  | Allocate nat
  | Deallocate nat
  | MayAppend nat
  | AppendToken nat int

type_synonym system = "BlockManager \<times> Sequence list"

fun apply_op :: "digest \<Rightarrow> system \<Rightarrow> op \<Rightarrow> error + system" where
  "apply_op xxh64 (bm, seqs) (New toks sp) =
     (case Sequence_init (length seqs) (BlockManager.block_size bm) toks sp of
        Inl e \<Rightarrow> Inl e
      | Inr s \<Rightarrow> Inr (bm, seqs @ [s]))"
| "apply_op xxh64 (bm, seqs) (Allocate i) =
     (if \<not> i < length seqs then Inl IndexError
      else (case allocate xxh64 bm (seqs ! i) of
              Inl e \<Rightarrow> Inl e
            | Inr (bm', s') \<Rightarrow> Inr (bm', seqs[i := s'])))"
| "apply_op xxh64 (bm, seqs) (Deallocate i) =
     (if \<not> i < length seqs then Inl IndexError
      else (case deallocate bm (seqs ! i) of
              Inl e \<Rightarrow> Inl e
            | Inr (bm', s') \<Rightarrow> Inr (bm', seqs[i := s'])))"
| "apply_op xxh64 (bm, seqs) (MayAppend i) =
     (if \<not> i < length seqs then Inl IndexError
      else (case may_append xxh64 bm (seqs ! i) of
              Inl e \<Rightarrow> Inl e
            | Inr (bm', s') \<Rightarrow> Inr (bm', seqs[i := s'])))"
| "apply_op xxh64 (bm, seqs) (AppendToken i t) =
     (if \<not> i < length seqs then Inl IndexError
      else Inr (bm, seqs[i := append_token (seqs ! i) t]))"

fun run_ops :: "digest \<Rightarrow> system \<Rightarrow> op list \<Rightarrow> error + system" where
  "run_ops xxh64 st [] = Inr st"
| "run_ops xxh64 st (x # xs) =
     (case apply_op xxh64 st x of
        Inl e \<Rightarrow> Inl e
      | Inr st' \<Rightarrow> run_ops xxh64 st' xs)"

inductive reachable :: "digest \<Rightarrow> nat \<Rightarrow> nat \<Rightarrow> system \<Rightarrow> bool"
  for xxh64 :: digest and n :: nat and bs :: nat where
  start: "BlockManager_init n bs = Inr bm \<Longrightarrow> reachable xxh64 n bs (bm, [])"
| step: "reachable xxh64 n bs st \<Longrightarrow> apply_op xxh64 st x = Inr st'
           \<Longrightarrow> reachable xxh64 n bs st'"

lemma reachable_run_ops:
  "reachable xxh64 n bs st \<Longrightarrow> run_ops xxh64 st xs = Inr st' \<Longrightarrow> reachable xxh64 n bs st'"
proof (induction xs arbitrary: st)
  case Nil
  then show ?case by simp
next
  case (Cons x xs)
  from Cons.prems(2) obtain st1 where
    a: "apply_op xxh64 st x = Inr st1" and r: "run_ops xxh64 st1 xs = Inr st'"
    by (auto split: sum.splits)
  from Cons.IH [OF reachable.step [OF Cons.prems(1) a] r] show ?case .
qed

text \<open>The number of times block \<open>b\<close> occurs in the block tables of all sequences.\<close>

definition total_refs :: "Sequence list \<Rightarrow> nat \<Rightarrow> nat" where
  "total_refs seqs b = sum_list (map (\<lambda>s. count_list (block_table s) b) seqs)"

lemma total_refs_update:
  "i < length seqs \<Longrightarrow>
     total_refs (seqs[i := s']) b + count_list (block_table (seqs ! i)) b
       = total_refs seqs b + count_list (block_table s') b"
proof (induction seqs arbitrary: i)
  case Nil
  then show ?case by simp
next
  case (Cons s seqs)
  show ?case
  proof (cases i)
    case 0
    then show ?thesis by (simp add: total_refs_def)
  next
    case (Suc j)
    with Cons.prems have "j < length seqs" by simp
    from Cons.IH [OF this] Suc show ?thesis by (simp add: total_refs_def)
  qed
qed

text \<open>No operation changes the \<^verbatim>\<open>block_id\<close> of a block: it stays the block's index.\<close>

definition ids_ok :: "BlockManager \<Rightarrow> bool" where
  "ids_ok bm \<longleftrightarrow> map block_id (blocks bm) = [0..<length (blocks bm)]"

lemma map_update_same: "f y = f (xs ! i) \<Longrightarrow> map f (xs[i := y]) = map f xs"
  by (induction xs arbitrary: i) (auto split: nat.splits)

lemma ids_allocate_block:
  "allocate_block bm b = Inr bm' \<Longrightarrow> map block_id (blocks bm') = map block_id (blocks bm)"
  by (auto simp: reset_def map_update_same dest!: allocate_block_result(4))

lemma ids_publish [simp]:
  "map block_id (blocks (publish bm h toks b)) = map block_id (blocks bm)"
  by (simp add: publish_def update_def map_update_same)

lemma ids_claim_block:
  "claim_block bm seq cm found = Inr (bm', seq', b) \<Longrightarrow>
     map block_id (blocks bm') = map block_id (blocks bm)"
  by (auto simp: claim_block_def map_update_same
           split: if_splits list.splits sum.splits option.splits dest: ids_allocate_block)

lemma ids_allocate_step:
  assumes "allocate_step xxh64 (bm, seq, h, cm) i = Inr (bm', seq', h', cm')"
  shows "map block_id (blocks bm') = map block_id (blocks bm)"
  using assms by (rule allocate_step_cases) (simp add: ids_claim_block)

lemma ids_allocate_loop:
  "allocate_loop xxh64 (bm, seq, h, cm) js = Inr (bm', seq', h', cm') \<Longrightarrow>
     map block_id (blocks bm') = map block_id (blocks bm)"
proof (induction js arbitrary: bm seq h cm)
  case Nil
  then show ?case by simp
next
  case (Cons j js)
  from Cons.prems obtain bm1 seq1 h1 cm1 where
    step: "allocate_step xxh64 (bm, seq, h, cm) j = Inr (bm1, seq1, h1, cm1)"
    and rest: "allocate_loop xxh64 (bm1, seq1, h1, cm1) js = Inr (bm', seq', h', cm')"
    by (auto split: sum.splits)
  from Cons.IH [OF rest] ids_allocate_step [OF step] show ?case by simp
qed

lemma ids_allocate:
  "allocate xxh64 bm seq = Inr (bm', seq') \<Longrightarrow>
     map block_id (blocks bm') = map block_id (blocks bm)"
  by (auto simp: allocate_def split: if_splits sum.splits dest: ids_allocate_loop)

lemma ids_deallocate_loop:
  "deallocate_loop bm bs = Inr bm' \<Longrightarrow> map block_id (blocks bm') = map block_id (blocks bm)"
proof (induction bs arbitrary: bm)
  case Nil
  then show ?case by simp
next
  case (Cons b bs)
  from Cons.prems obtain bm1 where "deallocate_loop bm1 bs = Inr bm'"
    "map block_id (blocks bm1) = map block_id (blocks bm)"
    by (auto simp: decr_ref_def map_update_same split: if_splits sum.splits
             dest!: deallocate_block_result(4))
  with Cons.IH [of bm1] show ?case by simp
qed

lemma ids_ok_same:
  "map block_id (blocks bm') = map block_id (blocks bm) \<Longrightarrow> ids_ok bm \<Longrightarrow> ids_ok bm'"
  by (metis ids_ok_def length_map)

text \<open>The three ways in which \<^verbatim>\<open>may_append\<close> returns.\<close>

lemma may_append_cases:
  assumes "may_append xxh64 bm seq = Inr (bm', seq')"
  obtains (opened) b where
      "num_tokens seq mod BlockManager.block_size bm = 1"
      "hash (blocks bm ! last (block_table seq)) \<noteq> - 1"
      "allocate_block bm b = Inr bm'"
      "seq' = seq\<lparr>block_table := block_table seq @ [b]\<rparr>"
  | (filled) n toks prefix h where
      "num_tokens seq mod BlockManager.block_size bm = 0"
      "block_table seq \<noteq> []" "last (block_table seq) < length (blocks bm)"
      "hash (blocks bm ! last (block_table seq)) = - 1"
      "num_blocks seq = Inr n" "block seq (int n - 1) = Inr toks"
      "prefix_hash bm (block_table seq) = Inr prefix"
      "compute_hash xxh64 toks prefix = Inr h"
      "bm' = bm\<lparr>blocks := (blocks bm)
                 [last (block_table seq) := update (blocks bm ! last (block_table seq)) h toks],
               hash_to_block_id := (hash_to_block_id bm)
                 (h \<mapsto> block_id (blocks bm ! last (block_table seq)))\<rparr>"
      "seq' = seq"
  | (partial) "bm' = bm" "seq' = seq"
proof -
  let ?bs = "BlockManager.block_size bm"
  let ?last = "blocks bm ! last (block_table seq)"
  from assms have ne: "block_table seq \<noteq> []"
    by (cases "block_table seq = []") (simp_all add: may_append_def)
  from assms ne have lt: "last (block_table seq) < length (blocks bm)"
    by (cases "last (block_table seq) < length (blocks bm)") (simp_all add: may_append_def)
  from assms ne lt have bs: "?bs \<noteq> 0"
    by (cases "?bs = 0") (simp_all add: may_append_def)
  consider (one) "num_tokens seq mod ?bs = 1"
    | (zero) "num_tokens seq mod ?bs \<noteq> 1" "num_tokens seq mod ?bs = 0"
    | (other) "num_tokens seq mod ?bs \<noteq> 1" "num_tokens seq mod ?bs \<noteq> 0"
    by blast
  then show thesis
  proof cases
    case one
    with assms ne lt bs have
      "(if hash ?last = - 1 then Inl AssertionError
        else (case free_block_ids bm of
                [] \<Rightarrow> Inl IndexError
              | b # _ \<Rightarrow>
                  (case allocate_block bm b of
                     Inl e \<Rightarrow> Inl e
                   | Inr bm' \<Rightarrow> Inr (bm', seq\<lparr>block_table := block_table seq @ [b]\<rparr>))))
       = Inr (bm', seq')"
      by (simp add: may_append_def)
    then obtain b where "hash ?last \<noteq> - 1" "allocate_block bm b = Inr bm'"
      "seq' = seq\<lparr>block_table := block_table seq @ [b]\<rparr>"
      by (auto split: if_splits list.splits sum.splits)
    with one show thesis by (rule opened)
  next
    case zero
    with assms ne lt bs have
      "(if hash ?last \<noteq> - 1 then Inl AssertionError
        else (case num_blocks seq of
                Inl e \<Rightarrow> Inl e
              | Inr n \<Rightarrow>
             (case block seq (int n - 1) of
                Inl e \<Rightarrow> Inl e
              | Inr toks \<Rightarrow>
             (case prefix_hash bm (block_table seq) of
                Inl e \<Rightarrow> Inl e
              | Inr prefix \<Rightarrow>
             (case compute_hash xxh64 toks prefix of
                Inl e \<Rightarrow> Inl e
              | Inr h \<Rightarrow>
                  Inr (bm\<lparr>blocks := (blocks bm)
                            [last (block_table seq) := update ?last h toks],
                          hash_to_block_id := (hash_to_block_id bm)
                            (h \<mapsto> block_id ?last)\<rparr>,
                       seq))))))
       = Inr (bm', seq')"
      by (simp add: may_append_def)
    then have body: "(if hash ?last \<noteq> - 1 then Inl AssertionError
        else (case num_blocks seq of
                Inl e \<Rightarrow> Inl e
              | Inr n \<Rightarrow>
             (case block seq (int n - 1) of
                Inl e \<Rightarrow> Inl e
              | Inr toks \<Rightarrow>
             (case prefix_hash bm (block_table seq) of
                Inl e \<Rightarrow> Inl e
              | Inr prefix \<Rightarrow>
             (case compute_hash xxh64 toks prefix of
                Inl e \<Rightarrow> Inl e
              | Inr h \<Rightarrow>
                  Inr (bm\<lparr>blocks := (blocks bm)
                            [last (block_table seq) := update ?last h toks],
                          hash_to_block_id := (hash_to_block_id bm)
                            (h \<mapsto> block_id ?last)\<rparr>,
                       seq))))))
       = Inr (bm', seq')" .
    have hl: "hash ?last = - 1"
      using body by (cases "hash ?last = - 1") simp_all
    obtain n where n: "num_blocks seq = Inr n"
      using body hl by (cases "num_blocks seq") simp_all
    obtain toks where t: "block seq (int n - 1) = Inr toks"
      using body hl n by (cases "block seq (int n - 1)") simp_all
    obtain prefix where p: "prefix_hash bm (block_table seq) = Inr prefix"
      using body hl n t by (cases "prefix_hash bm (block_table seq)") simp_all
    obtain h where h: "compute_hash xxh64 toks prefix = Inr h"
      using body hl n t p by (cases "compute_hash xxh64 toks prefix") simp_all
    from body hl n t p h have r: "Inr (bm\<lparr>blocks := (blocks bm)
                            [last (block_table seq) := update ?last h toks],
                          hash_to_block_id := (hash_to_block_id bm)
                            (h \<mapsto> block_id ?last)\<rparr>, seq) = (Inr (bm', seq') :: error + _)"
      by (simp only: if_False simp_thms sum.case)
    then have "bm' = bm\<lparr>blocks := (blocks bm)
                 [last (block_table seq) := update ?last h toks],
               hash_to_block_id := (hash_to_block_id bm) (h \<mapsto> block_id ?last)\<rparr>"
      "seq' = seq"
      by (simp_all only: sum.inject prod.inject) blast+
    note res = hl n t p h this
    from zero(2) ne lt res show thesis by (rule filled)
  next
    case other
    with assms ne lt bs have "bm' = bm" "seq' = seq"
      by (auto simp: may_append_def split: if_splits)
    then show thesis by (rule partial)
  qed
qed

definition ref_consistent :: "system \<Rightarrow> bool" where
  "ref_consistent st \<longleftrightarrow>
     (\<forall>b < length (blocks (fst st)).
        ref_count (blocks (fst st) ! b) = int (total_refs (snd st) b))"

definition sys_inv :: "system \<Rightarrow> bool" where
  "sys_inv st \<longleftrightarrow>
     pool_inv (fst st) \<and> used_ok (fst st) \<and> index_ok (fst st) \<and> ids_ok (fst st)
     \<and> ref_consistent st"

lemma sys_inv_wf_bm: "sys_inv (bm, seqs) \<Longrightarrow> wf_bm bm"
  by (auto simp: sys_inv_def wf_bm_def ref_consistent_def refs_nonneg_def)

lemma deallocate_loop_in_range:
  "deallocate_loop bm bs = Inr bm' \<Longrightarrow> \<forall>b \<in> set bs. b < length (blocks bm)"
proof (induction bs arbitrary: bm)
  case Nil
  then show ?case by simp
next
  case (Cons b bs)
  from Cons.prems have b: "b < length (blocks bm)" by (auto split: if_splits)
  from Cons.prems obtain bm1 where "deallocate_loop bm1 bs = Inr bm'"
    "length (blocks bm1) = length (blocks bm)"
    by (auto split: if_splits sum.splits dest!: deallocate_block_result(4))
  with Cons.IH [of bm1] b show ?case by simp
qed

lemma deallocate_loop_index:
  "deallocate_loop bm bs = Inr bm' \<Longrightarrow> hash_to_block_id bm' = hash_to_block_id bm"
proof (induction bs arbitrary: bm)
  case Nil
  then show ?case by simp
next
  case (Cons b bs)
  from Cons.prems obtain bm1 where "deallocate_loop bm1 bs = Inr bm'"
    "hash_to_block_id bm1 = hash_to_block_id bm"
    by (auto simp: decr_ref_def split: if_splits sum.splits dest!: deallocate_block_result(4))
  with Cons.IH [of bm1] show ?case by simp
qed


lemma ref_consistent_shift:
  assumes rc: "ref_consistent (bm, seqs)" and i: "i < length seqs"
    and l: "length (blocks bm') = length (blocks bm)"
    and r: "\<forall>c < length (blocks bm).
        ref_count (blocks bm' ! c) + int (count_list (block_table (seqs ! i)) c)
          = ref_count (blocks bm ! c) + int (count_list (block_table s') c)"
  shows "ref_consistent (bm', seqs[i := s'])"
  unfolding ref_consistent_def
proof (intro allI impI)
  fix b assume "b < length (blocks (fst (bm', seqs[i := s'])))"
  with l have b: "b < length (blocks bm)" by simp
  from rc b have "ref_count (blocks bm ! b) = int (total_refs seqs b)"
    by (simp add: ref_consistent_def)
  then have 1: "ref_count (blocks bm ! b) = int (total_refs seqs b)" .
  from r b have 2: "ref_count (blocks bm' ! b) + int (count_list (block_table (seqs ! i)) b)
      = ref_count (blocks bm ! b) + int (count_list (block_table s') b)" by blast
  have 3: "int (total_refs (seqs[i := s']) b) + int (count_list (block_table (seqs ! i)) b)
      = int (total_refs seqs b) + int (count_list (block_table s') b)"
    using arg_cong [OF total_refs_update [OF i, of s' b], of int] by (simp only: of_nat_add)
  from 1 2 3 have "ref_count (blocks bm' ! b) = int (total_refs (seqs[i := s']) b)" by linarith
  then show "ref_count (blocks (fst (bm', seqs[i := s'])) ! b)
          = int (total_refs (snd (bm', seqs[i := s'])) b)" by simp
qed


lemma ids_ok_nth: "ids_ok bm \<Longrightarrow> b < length (blocks bm) \<Longrightarrow> block_id (blocks bm ! b) = b"
  by (metis ids_ok_def nth_map nth_upt add_0)

lemma sys_invI:
  assumes "pool_inv bm" "used_ok bm" "index_ok bm" "ids_ok bm" "ref_consistent (bm, seqs)"
  shows "sys_inv (bm, seqs)"
  using assms by (simp add: sys_inv_def)

lemma sys_invD:
  assumes "sys_inv (bm, seqs)"
  shows "pool_inv bm" "used_ok bm" "index_ok bm" "ids_ok bm" "ref_consistent (bm, seqs)"
  using assms by (simp_all add: sys_inv_def)

lemma sys_inv_new:
  assumes inv: "sys_inv (bm, seqs)" and s: "Sequence_init c sbs toks sp = Inr s"
  shows "sys_inv (bm, seqs @ [s])"
proof -
  from s have "block_table s = []" by (auto simp: Sequence_init_def split: if_splits)
  then have "total_refs (seqs @ [s]) b = total_refs seqs b" for b
    by (simp add: total_refs_def)
  with inv show ?thesis by (simp add: sys_inv_def ref_consistent_def)
qed

lemma sys_inv_allocate:
  assumes inv: "sys_inv (bm, seqs)" and i: "i < length seqs"
    and a: "allocate xxh64 bm (seqs ! i) = Inr (bm', s')"
  shows "sys_inv (bm', seqs[i := s'])"
proof (rule sys_invI)
  note d = sys_invD [OF inv]
  from wf_bm_allocate [OF sys_inv_wf_bm [OF inv] a]
  show "pool_inv bm'" "used_ok bm'" "index_ok bm'" by (simp_all add: wf_bm_def)
  from ids_allocate [OF a] d(4) show "ids_ok bm'" by (rule ids_ok_same)
  from a have e: "block_table (seqs ! i) = []" by (auto simp: allocate_def split: if_splits)
  from pool_inv_allocate [OF d(1) a] have l: "length (blocks bm') = length (blocks bm)" by simp
  from allocate_refs [OF d(1) a] e
  have "\<forall>c < length (blocks bm).
        ref_count (blocks bm' ! c) + int (count_list (block_table (seqs ! i)) c)
          = ref_count (blocks bm ! c) + int (count_list (block_table s') c)" by simp
  from ref_consistent_shift [OF d(5) i l this] show "ref_consistent (bm', seqs[i := s'])" .
qed

lemma sys_inv_deallocate:
  assumes inv: "sys_inv (bm, seqs)" and i: "i < length seqs"
    and a: "deallocate bm (seqs ! i) = Inr (bm', s')"
  shows "sys_inv (bm', seqs[i := s'])"
proof (rule sys_invI)
  note d = sys_invD [OF inv]
  let ?t = "block_table (seqs ! i)"
  from a have dl: "deallocate_loop bm (rev ?t) = Inr bm'" and e: "block_table s' = []"
    by (auto simp: deallocate_def split: sum.splits)
  from deallocate_loop_effect [OF d(1) d(2) deallocate_loop_in_range [OF dl]] dl
  have eff: "pool_inv bm'" "used_ok bm'" "length (blocks bm') = length (blocks bm)"
    "\<forall>c < length (blocks bm).
       ref_count (blocks bm' ! c) = ref_count (blocks bm ! c) - int (count_list (rev ?t) c)"
    by auto
  from eff show "pool_inv bm'" "used_ok bm'" by simp_all
  from deallocate_loop_index [OF dl] eff(3) d(3) show "index_ok bm'" by (simp add: index_ok_def)
  from ids_deallocate_loop [OF dl] d(4) show "ids_ok bm'" by (rule ids_ok_same)
  from eff(4) e
  have "\<forall>c < length (blocks bm).
        ref_count (blocks bm' ! c) + int (count_list (block_table (seqs ! i)) c)
          = ref_count (blocks bm ! c) + int (count_list (block_table s') c)" by simp
  from ref_consistent_shift [OF d(5) i eff(3) this] show "ref_consistent (bm', seqs[i := s'])" .
qed

lemma sys_inv_may_append:
  assumes inv: "sys_inv (bm, seqs)" and i: "i < length seqs"
    and a: "may_append xxh64 bm (seqs ! i) = Inr (bm', s')"
  shows "sys_inv (bm', seqs[i := s'])"
  using a
proof (cases rule: may_append_cases)
  note d = sys_invD [OF inv]
  case (opened b)
  note g = allocate_block_gains [OF opened(3)]
  show ?thesis
  proof (rule sys_invI)
    from pool_inv_allocate_block [OF d(1) opened(3)] show "pool_inv bm'" by simp
    from g(1) d(2) show "used_ok bm'" by (rule gains_used_ok)
    from g d(3) show "index_ok bm'" by (simp add: index_ok_def gains_def)
    from ids_allocate_block [OF opened(3)] d(4) show "ids_ok bm'" by (rule ids_ok_same)
    from g(1) have l: "length (blocks bm') = length (blocks bm)" by (simp add: gains_def)
    from g(1) opened(4)
    have "\<forall>c < length (blocks bm).
        ref_count (blocks bm' ! c) + int (count_list (block_table (seqs ! i)) c)
          = ref_count (blocks bm ! c) + int (count_list (block_table s') c)"
      by (auto simp: gains_def)
    from ref_consistent_shift [OF d(5) i l this] show "ref_consistent (bm', seqs[i := s'])" .
  qed
next
  note d = sys_invD [OF inv]
  case (filled n toks prefix h)
  let ?l = "last (block_table (seqs ! i))"
  from filled(10) have same: "seqs[i := s'] = seqs" by simp
  have rc: "ref_count (blocks bm' ! c) = ref_count (blocks bm ! c)" for c
    by (cases "c = ?l") (simp_all add: filled(9) update_def filled(3))
  have l: "length (blocks bm') = length (blocks bm)" by (simp add: filled(9))
  show ?thesis
  proof (rule sys_invI)
    from d(1) show "pool_inv bm'" by (simp add: pool_inv_def filled(9))
    from d(2) rc l show "used_ok bm'" by (simp add: used_ok_def) (simp add: filled(9))
    from d(3) ids_ok_nth [OF d(4) filled(3)] filled(3) show "index_ok bm'"
      by (auto simp: index_ok_def filled(9))
    have "map block_id (blocks bm') = map block_id (blocks bm)"
      by (simp add: filled(9) update_def map_update_same)
    from this d(4) show "ids_ok bm'" by (rule ids_ok_same)
    from d(5) rc l show "ref_consistent (bm', seqs[i := s'])"
      by (simp add: same ref_consistent_def)
  qed
next
  case partial
  with inv show ?thesis by simp
qed

lemma sys_inv_append_token:
  assumes inv: "sys_inv (bm, seqs)" and i: "i < length seqs"
  shows "sys_inv (bm, seqs[i := append_token (seqs ! i) t])"
proof (rule sys_invI)
  note d = sys_invD [OF inv]
  from d show "pool_inv bm" "used_ok bm" "index_ok bm" "ids_ok bm" by simp_all
  have "\<forall>c < length (blocks bm).
        ref_count (blocks bm ! c) + int (count_list (block_table (seqs ! i)) c)
          = ref_count (blocks bm ! c)
            + int (count_list (block_table (append_token (seqs ! i) t)) c)"
    by (simp add: append_token_def)
  from ref_consistent_shift [OF d(5) i refl this]
  show "ref_consistent (bm, seqs[i := append_token (seqs ! i) t])" .
qed

lemma sys_inv_apply_op:
  assumes "sys_inv st" "apply_op xxh64 st x = Inr st'"
  shows "sys_inv st'"
proof -
  obtain bm seqs where st: "st = (bm, seqs)" by (cases st)
  show ?thesis
  proof (cases x)
    case (New toks sp)
    with assms st show ?thesis by (auto split: sum.splits dest: sys_inv_new)
  next
    case (Allocate i)
    with assms st show ?thesis by (auto split: if_splits sum.splits dest: sys_inv_allocate)
  next
    case (Deallocate i)
    with assms st show ?thesis by (auto split: if_splits sum.splits dest: sys_inv_deallocate)
  next
    case (MayAppend i)
    with assms st show ?thesis by (auto split: if_splits sum.splits dest: sys_inv_may_append)
  next
    case (AppendToken i t)
    with assms st show ?thesis by (auto split: if_splits dest: sys_inv_append_token)
  qed
qed

lemma sys_inv_start:
  assumes "BlockManager_init n bs = Inr bm"
  shows "sys_inv (bm, [])"
proof -
  from assms have bm: "bm = \<lparr>block_size = bs, blocks = map Block_init [0..<n],
      hash_to_block_id = Map.empty, free_block_ids = [0..<n], used_block_ids = {}\<rparr>"
    by (auto simp: BlockManager_init_def split: if_splits)
  from wf_bm_init [OF assms] have "pool_inv bm" "used_ok bm" "index_ok bm"
    by (simp_all add: wf_bm_def)
  moreover have "ids_ok bm"
    by (simp add: ids_ok_def bm Block_init_def comp_def map_idI)
  moreover have "ref_consistent (bm, [])"
    by (simp add: ref_consistent_def bm Block_init_def total_refs_def)
  ultimately show ?thesis by (rule sys_invI)
qed

lemma reachable_sys_inv: "reachable xxh64 n bs st \<Longrightarrow> sys_inv st"
  by (induction rule: reachable.induct) (auto intro: sys_inv_start sys_inv_apply_op)


definition bm_fresh2 :: BlockManager where
  "bm_fresh2 =
     \<lparr>block_size = 4, blocks = map Block_init [0..<2], hash_to_block_id = Map.empty,
      free_block_ids = [0..<2], used_block_ids = {}\<rparr>"

definition double_hit_ops :: "op list" where
  "double_hit_ops =
     [New [1, 2, 3, 4, 1, 2, 3, 4] default_params, Allocate 0, Deallocate 0,
      New [1, 2, 3] default_params, Allocate 1, AppendToken 1 4, MayAppend 1, Deallocate 1,
      New [1, 2, 3, 4, 1, 2, 3, 4] default_params, Allocate 2]"


lemma hash_1234_1234:
  "compute_hash XXH64 [1, 2, 3, 4] 8356527653647720045 = Inr 814879221424932033"
  by code_simp

lemma double_hit_run:
  "(case run_ops XXH64 (bm_fresh2, []) double_hit_ops of
      Inl e \<Rightarrow> None
    | Inr (bm, seqs) \<Rightarrow>
        Some (map block_table seqs, map ref_count (blocks bm), map hash (blocks bm),
              map Block.token_ids (blocks bm), map num_cached_tokens seqs))
   = Some ([[], [], [1, 1]], [0, 2], [8356527653647720045, 814879221424932033],
           [[1, 2, 3, 4], [1, 2, 3, 4]], [0, 0, 8])"
  by (simp add: bm_fresh2_def double_hit_ops_def eval_defs hash_1234 hash_1234_1234)

lemma bm_fresh2_init: "BlockManager_init 2 4 = Inr bm_fresh2"
  by (simp add: BlockManager_init_def bm_fresh2_def)

lemma ids_apply_op:
  assumes "apply_op xxh64 (bm, seqs) x = Inr (bm', seqs')"
  shows "map block_id (blocks bm') = map block_id (blocks bm)"
proof (cases x)
  case (New toks sp)
  with assms show ?thesis by (auto split: sum.splits)
next
  case (Allocate i)
  with assms show ?thesis by (auto split: if_splits sum.splits dest: ids_allocate)
next
  case (Deallocate i)
  with assms show ?thesis
    by (auto simp: deallocate_def split: if_splits sum.splits dest: ids_deallocate_loop)
next
  case (MayAppend i)
  with assms obtain s' where m: "may_append xxh64 bm (seqs ! i) = Inr (bm', s')"
    by (auto split: if_splits sum.splits)
  then show ?thesis
    by (cases rule: may_append_cases)
       (simp_all add: ids_allocate_block update_def map_update_same)
next
  case (AppendToken i t)
  with assms show ?thesis by (auto split: if_splits)
qed

lemma reachable_length:
  "reachable xxh64 n bs st \<Longrightarrow> length (blocks (fst st)) = n"
proof (induction rule: reachable.induct)
  case (start bm)
  then show ?case by (auto simp: BlockManager_init_def split: if_splits)
next
  case (step st x st')
  obtain bm seqs bm' seqs' where "st = (bm, seqs)" "st' = (bm', seqs')"
    by (cases st, cases st')
  with step ids_apply_op [of xxh64 bm seqs x bm' seqs'] show ?case
    by (metis fst_conv length_map)
qed

lemma count_list_distinct:
  "distinct xs \<Longrightarrow> count_list xs b = (if b \<in> set xs then 1 else 0)"
  by (induction xs) auto

lemma total_refs_distinct:
  "\<forall>s \<in> set seqs. distinct (block_table s) \<Longrightarrow>
     total_refs seqs b = length (filter (\<lambda>s. b \<in> set (block_table s)) seqs)"
  by (induction seqs) (simp_all add: total_refs_def count_list_distinct)

text \<open>
  What the counter counts.  In every reachable state the \<^verbatim>\<open>ref_count\<close> of a block is the
  number of entries of all block tables that hold its id.  When no table holds an id
  twice, this is the number of sequences whose table contains the id.
\<close>

lemma ref_count_counts_entries:
  assumes r: "reachable xxh64 n bs (bm, seqs)" and b: "b < n"
  shows "ref_count (blocks bm ! b)
           = int (sum_list (map (\<lambda>s. count_list (block_table s) b) seqs))
     \<and> ((\<forall>s \<in> set seqs. distinct (block_table s))
          \<longrightarrow> ref_count (blocks bm ! b)
                = int (length (filter (\<lambda>s. b \<in> set (block_table s)) seqs)))"
proof -
  from reachable_length [OF r] b have "b < length (blocks bm)" by simp
  with reachable_sys_inv [OF r]
  have t: "ref_count (blocks bm ! b) = int (total_refs seqs b)"
    by (simp add: sys_inv_def ref_consistent_def)
  then show ?thesis
    by (auto simp: total_refs_distinct) (simp add: total_refs_def)
qed

definition sharing_ops :: "op list" where
  "sharing_ops =
     [New [1, 2, 3, 4, 5, 6, 7, 8, 9] default_params, Allocate 0,
      New [1, 2, 3, 4, 5, 6, 7, 8, 10] default_params, Allocate 1]"

lemma sharing_run:
  "(case run_ops XXH64 (bm_fresh8, []) sharing_ops of
      Inl e \<Rightarrow> None
    | Inr (bm, seqs) \<Rightarrow> Some (map block_table seqs))
   = Some [[0, 1, 2], [0, 1, 3]]"
  by (simp add: bm_fresh8_def sharing_ops_def eval_defs hash_1234 hash_1234_5678)

text \<open>After the two allocations of the prefix-sharing example no table holds an id
  twice, and block 0 is referenced twice, by two sequences.\<close>

lemma ref_count_counts_entries_sharing:
  "\<exists>bm seqs. reachable XXH64 8 4 (bm, seqs) \<and> (0::nat) < 8
      \<and> (\<forall>s \<in> set seqs. distinct (block_table s))
      \<and> ref_count (blocks bm ! 0) = 2
      \<and> length (filter (\<lambda>s. 0 \<in> set (block_table s)) seqs) = 2"
proof -
  from sharing_run obtain bm seqs where
    run: "run_ops XXH64 (bm_fresh8, []) sharing_ops = Inr (bm, seqs)"
    and t: "map block_table seqs = [[0, 1, 2], [0, 1, 3]]"
    by (auto split: sum.splits)
  have "reachable XXH64 8 4 (bm_fresh8, [])"
    by (rule reachable.start [OF bm_fresh8_init])
  from reachable_run_ops [OF this run] have r: "reachable XXH64 8 4 (bm, seqs)" .
  from t obtain s0 s1 where s: "seqs = [s0, s1]"
    "block_table s0 = [0, 1, 2]" "block_table s1 = [0, 1, 3]"
    by (auto simp: map_eq_Cons_conv)
  then have d: "\<forall>s \<in> set seqs. distinct (block_table s)" by simp
  from s have l: "length (filter (\<lambda>s. 0 \<in> set (block_table s)) seqs) = 2" by simp
  from ref_count_counts_entries [OF r, of 0] d l
  have "ref_count (blocks bm ! 0) = 2" by simp
  with r d l show ?thesis
    by (intro exI [of _ bm] exI [of _ seqs]) simp
qed

subsection \<open>A stale index entry: one block twice in one table\<close>

text \<open>
  The run \<open>double_hit_ops\<close> on a pool of 2 blocks of size 4, with XXH64 as the hasher.
  Q = [1,2,3,4,1,2,3,4] is allocated (blocks 0 and 1) and released; the index keeps both
  chained hashes, the second one pointing to block 1.  V = [1,2,3] takes block 1, grows
  by the token 4, \<^verbatim>\<open>may_append\<close> publishes block 1 under the hash of a first block
  [1,2,3,4], and V is released.  The index now maps both chained hashes of Q to block 1,
  which holds [1,2,3,4].  Allocating X = [1,2,3,4,1,2,3,4] hits block 1 for both of its
  logical blocks.
\<close>

lemma hash_1234_after:
  "compute_hash XXH64 [1, 2, 3, 4] 814879221424932033 = Inr 17147295234987463596"
  by code_simp

lemma double_hit_state:
  "\<exists>bm seqs. reachable XXH64 2 4 (bm, seqs)
      \<and> map block_table seqs = [[], [], [1, 1]]
      \<and> map num_cached_tokens seqs = [0, 0, 8]
      \<and> ref_count (blocks bm ! 1) = 2
      \<and> hash (blocks bm ! 1) = 814879221424932033
      \<and> Block.token_ids (blocks bm ! 1) = [1, 2, 3, 4]"
proof -
  from double_hit_run obtain bm seqs where
    run: "run_ops XXH64 (bm_fresh2, []) double_hit_ops = Inr (bm, seqs)"
    and t: "map block_table seqs = [[], [], [1, 1]]"
    and n: "map num_cached_tokens seqs = [0, 0, 8]"
    and rc: "map ref_count (blocks bm) = [0, 2]"
    and c: "map hash (blocks bm) = [8356527653647720045, 814879221424932033]"
    and k: "map Block.token_ids (blocks bm) = [[1, 2, 3, 4], [1, 2, 3, 4]]"
    by (auto split: sum.splits)
  have "reachable XXH64 2 4 (bm_fresh2, [])"
    by (rule reachable.start [OF bm_fresh2_init])
  from reachable_run_ops [OF this run] have r: "reachable XXH64 2 4 (bm, seqs)" .
  from rc c k obtain b0 b1 where "blocks bm = [b0, b1]" "ref_count b1 = 2"
    "hash b1 = 814879221424932033" "Block.token_ids b1 = [1, 2, 3, 4]"
    by (auto simp: map_eq_Cons_conv)
  with r t n show ?thesis
    by (intro exI [of _ bm] exI [of _ seqs]) simp
qed

text \<open>
  The same state is reached through the engine alone, on a scheduler with 2 blocks of
  size 4: request Q with \<^verbatim>\<open>max_tokens\<close> 1 is prefilled and finishes on its first sampled
  token; request V with \<^verbatim>\<open>max_tokens\<close> 2 is prefilled (sampled token 4), decoded once
  (\<^verbatim>\<open>may_append\<close> publishes its block) and finishes; request X is added and \<^verbatim>\<open>schedule\<close>
  admits it.
\<close>

definition engine_double_hit :: "digest \<Rightarrow> error + (Scheduler \<times> nat list \<times> bool)" where
  "engine_double_hit xxh64 =
     (case Scheduler_init (config4 2) (\<lambda>_. seq_1234) of Inl e \<Rightarrow> Inl e | Inr sch0 \<Rightarrow>
     (case Sequence_init 0 4 [1, 2, 3, 4, 1, 2, 3, 4]
             (default_params\<lparr>SamplingParams.max_tokens := 1\<rparr>) of Inl e \<Rightarrow> Inl e | Inr q \<Rightarrow>
     (case step xxh64 (add sch0 q) [7] of Inl e \<Rightarrow> Inl e | Inr sch1 \<Rightarrow>
     (case Sequence_init 1 4 [1, 2, 3]
             (default_params\<lparr>SamplingParams.max_tokens := 2\<rparr>) of Inl e \<Rightarrow> Inl e | Inr v \<Rightarrow>
     (case step xxh64 (add sch1 v) [4] of Inl e \<Rightarrow> Inl e | Inr sch2 \<Rightarrow>
     (case step xxh64 sch2 [7] of Inl e \<Rightarrow> Inl e | Inr sch3 \<Rightarrow>
     (case Sequence_init 2 4 [1, 2, 3, 4, 1, 2, 3, 4] default_params of Inl e \<Rightarrow> Inl e | Inr x \<Rightarrow>
        schedule xxh64 (add sch3 x))))))))"

lemma engine_double_hit_run:
  "(case engine_double_hit XXH64 of
      Inl e \<Rightarrow> None
    | Inr (sch, batch, is_prefill) \<Rightarrow>
        Some (batch, is_prefill, map (\<lambda>i. status (heap sch i)) [0, 1, 2],
              map (\<lambda>i. block_table (heap sch i)) [0, 1, 2],
              num_tokens (heap sch 2), num_cached_tokens (heap sch 2),
              map ref_count (blocks (block_manager sch)),
              map hash (blocks (block_manager sch)),
              map Block.token_ids (blocks (block_manager sch)),
              free_block_ids (block_manager sch)))
   = Some ([2], True, [FINISHED, FINISHED, RUNNING], [[], [], [1, 1]], 8, 8, [0, 2],
           [8356527653647720045, 814879221424932033], [[1, 2, 3, 4], [1, 2, 3, 4]], [0])"
  by (simp add: engine_double_hit_def sched_defs eval_defs hash_1234 hash_1234_1234)

lemma engine_double_hit_state:
  "\<exists>sch. engine_double_hit XXH64 = Inr (sch, [2], True)
      \<and> block_table (heap sch 0) = [] \<and> block_table (heap sch 1) = []
      \<and> block_table (heap sch 2) = [1, 1]
      \<and> num_tokens (heap sch 2) = 8 \<and> num_cached_tokens (heap sch 2) = 8
      \<and> ref_count (blocks (block_manager sch) ! 1) = 2
      \<and> hash (blocks (block_manager sch) ! 1) = 814879221424932033
      \<and> Block.token_ids (blocks (block_manager sch) ! 1) = [1, 2, 3, 4]"
proof -
  from engine_double_hit_run obtain sch where
    run: "engine_double_hit XXH64 = Inr (sch, [2], True)"
    and t: "block_table (heap sch 0) = []" "block_table (heap sch 1) = []"
      "block_table (heap sch 2) = [1, 1]"
      "num_tokens (heap sch 2) = 8" "num_cached_tokens (heap sch 2) = 8"
    and rc: "map ref_count (blocks (block_manager sch)) = [0, 2]"
    and c: "map hash (blocks (block_manager sch)) = [8356527653647720045, 814879221424932033]"
    and k: "map Block.token_ids (blocks (block_manager sch)) = [[1, 2, 3, 4], [1, 2, 3, 4]]"
    by (auto split: sum.splits)
  from rc c k obtain b0 b1 where "blocks (block_manager sch) = [b0, b1]" "ref_count b1 = 2"
    "hash b1 = 814879221424932033" "Block.token_ids b1 = [1, 2, 3, 4]"
    by (auto simp: map_eq_Cons_conv)
  with run t show ?thesis
    by (intro exI [of _ sch]) simp
qed

text \<open>
  Claim C4 against the code.  The claim says that in every state reachable by
  \<^verbatim>\<open>allocate\<close>, \<^verbatim>\<open>may_append\<close> and \<^verbatim>\<open>deallocate\<close> the \<^verbatim>\<open>ref_count\<close> of a block is the number
  of sequences whose table contains its id.  After the run above the table of X is
  [1, 1]: the \<^verbatim>\<open>ref_count\<close> of block 1 is 2 and one sequence holds the block.  The second
  logical block of X was taken as a cache hit through an index entry that Q left behind,
  because block 1 holds the same token ids as the first logical block of X, which had
  just claimed it; all 8 tokens of X count as cached.  The engine reaches the same state
  by \<^verbatim>\<open>add\<close>, \<^verbatim>\<open>schedule\<close> and \<^verbatim>\<open>postprocess\<close> alone.
\<close>

theorem ref_count_double_hit:
  "(\<exists>bm seqs. reachable XXH64 2 4 (bm, seqs)
      \<and> map block_table seqs = [[], [], [1, 1]]
      \<and> map num_cached_tokens seqs = [0, 0, 8]
      \<and> ref_count (blocks bm ! 1) = 2
      \<and> length (filter (\<lambda>s. 1 \<in> set (block_table s)) seqs) = 1)
   \<and> (\<exists>sch. engine_double_hit XXH64 = Inr (sch, [2], True)
      \<and> block_table (heap sch 0) = [] \<and> block_table (heap sch 1) = []
      \<and> block_table (heap sch 2) = [1, 1]
      \<and> num_tokens (heap sch 2) = 8 \<and> num_cached_tokens (heap sch 2) = 8
      \<and> ref_count (blocks (block_manager sch) ! 1) = 2)"
proof
  from double_hit_state obtain bm seqs where
    r: "reachable XXH64 2 4 (bm, seqs)"
    and t: "map block_table seqs = [[], [], [1, 1]]"
    and n: "map num_cached_tokens seqs = [0, 0, 8]"
    and rc: "ref_count (blocks bm ! 1) = 2"
    by auto
  from t obtain s0 s1 s2 where "seqs = [s0, s1, s2]"
    "block_table s0 = []" "block_table s1 = []" "block_table s2 = [1, 1]"
    by (auto simp: map_eq_Cons_conv)
  then have "length (filter (\<lambda>s. 1 \<in> set (block_table s)) seqs) = 1" by simp
  with r t n rc show "\<exists>bm seqs. reachable XXH64 2 4 (bm, seqs)
      \<and> map block_table seqs = [[], [], [1, 1]]
      \<and> map num_cached_tokens seqs = [0, 0, 8]
      \<and> ref_count (blocks bm ! 1) = 2
      \<and> length (filter (\<lambda>s. 1 \<in> set (block_table s)) seqs) = 1"
    by (intro exI [of _ bm] exI [of _ seqs]) simp
next
  from engine_double_hit_state obtain sch where
    "engine_double_hit XXH64 = Inr (sch, [2], True)"
    "block_table (heap sch 0) = []" "block_table (heap sch 1) = []"
    "block_table (heap sch 2) = [1, 1]"
    "num_tokens (heap sch 2) = 8" "num_cached_tokens (heap sch 2) = 8"
    "ref_count (blocks (block_manager sch) ! 1) = 2"
    by auto
  then show "\<exists>sch. engine_double_hit XXH64 = Inr (sch, [2], True)
      \<and> block_table (heap sch 0) = [] \<and> block_table (heap sch 1) = []
      \<and> block_table (heap sch 2) = [1, 1]
      \<and> num_tokens (heap sch 2) = 8 \<and> num_cached_tokens (heap sch 2) = 8
      \<and> ref_count (blocks (block_manager sch) ! 1) = 2"
    by (intro exI [of _ sch]) simp
qed


section \<open>Hash validity\<close>

text \<open>The chained hash of a list of token blocks, starting from the prefix \<open>p\<close>.\<close>

fun chain_hash :: "digest \<Rightarrow> int \<Rightarrow> int list list \<Rightarrow> error + int" where
  "chain_hash xxh64 p [] = Inr p"
| "chain_hash xxh64 p (toks # rest) =
     (case compute_hash xxh64 toks p of
        Inl e \<Rightarrow> Inl e
      | Inr h \<Rightarrow> chain_hash xxh64 h rest)"

lemma chain_hash_snoc:
  "chain_hash xxh64 p (tss @ [toks]) =
     (case chain_hash xxh64 p tss of
        Inl e \<Rightarrow> Inl e
      | Inr h \<Rightarrow> compute_hash xxh64 toks h)"
  by (induction tss arbitrary: p) (auto split: sum.splits)

definition is_chain :: "digest \<Rightarrow> int \<Rightarrow> bool" where
  "is_chain xxh64 h \<longleftrightarrow> (\<exists>tss. chain_hash xxh64 (- 1) tss = Inr h)"

definition block_hash_ok :: "digest \<Rightarrow> nat \<Rightarrow> Block \<Rightarrow> bool" where
  "block_hash_ok xxh64 bs blk \<longleftrightarrow>
     (hash blk \<noteq> - 1 \<longrightarrow>
        length (Block.token_ids blk) = bs
        \<and> (\<exists>tss. chain_hash xxh64 (- 1) (tss @ [Block.token_ids blk]) = Inr (hash blk)))"

definition hash_inv :: "digest \<Rightarrow> BlockManager \<Rightarrow> bool" where
  "hash_inv xxh64 bm \<longleftrightarrow>
     (\<forall>blk \<in> set (blocks bm). block_hash_ok xxh64 (BlockManager.block_size bm) blk)"

lemma is_chain_sentinel [simp]: "is_chain xxh64 (- 1)"
  unfolding is_chain_def by (rule exI [of _ "[]"]) simp

lemma is_chain_compute:
  assumes "is_chain xxh64 p" "compute_hash xxh64 toks p = Inr h"
  shows "\<exists>tss. chain_hash xxh64 (- 1) (tss @ [toks]) = Inr h" "is_chain xxh64 h"
proof -
  from assms(1) obtain tss where "chain_hash xxh64 (- 1) tss = Inr p"
    by (auto simp: is_chain_def)
  with assms(2) have c: "chain_hash xxh64 (- 1) (tss @ [toks]) = Inr h"
    by (simp add: chain_hash_snoc)
  then show "\<exists>tss. chain_hash xxh64 (- 1) (tss @ [toks]) = Inr h" ..
  from c show "is_chain xxh64 h" unfolding is_chain_def ..
qed

lemma block_hash_ok_chain:
  "block_hash_ok xxh64 bs blk \<Longrightarrow> is_chain xxh64 (hash blk)"
proof (cases "hash blk = - 1")
  case True
  then show ?thesis by simp
next
  case False
  assume "block_hash_ok xxh64 bs blk"
  with False obtain tss where
    "chain_hash xxh64 (- 1) (tss @ [Block.token_ids blk]) = Inr (hash blk)"
    by (auto simp: block_hash_ok_def)
  then show ?thesis unfolding is_chain_def ..
qed

lemma block_hash_ok_reset [simp]: "block_hash_ok xxh64 bs (reset blk)"
  by (simp add: block_hash_ok_def reset_def)

lemma block_hash_ok_ref_count [simp]:
  "block_hash_ok xxh64 bs (blk\<lparr>ref_count := r\<rparr>) = block_hash_ok xxh64 bs blk"
  by (simp add: block_hash_ok_def)

lemma block_hash_ok_update:
  assumes "h \<noteq> - 1 \<Longrightarrow> length toks = bs"
    and "h \<noteq> - 1 \<Longrightarrow> \<exists>tss. chain_hash xxh64 (- 1) (tss @ [toks]) = Inr h"
  shows "block_hash_ok xxh64 bs (update blk h toks)"
  using assms by (simp add: block_hash_ok_def update_def)

lemma hash_inv_blocks_update:
  assumes "hash_inv xxh64 bm"
    and "i < length (blocks bm) \<Longrightarrow> block_hash_ok xxh64 (BlockManager.block_size bm) y"
  shows "\<forall>blk \<in> set ((blocks bm)[i := y]). block_hash_ok xxh64 (BlockManager.block_size bm) blk"
proof (cases "i < length (blocks bm)")
  case True
  with assms set_update_subset_insert [of "blocks bm" i y] show ?thesis
    by (auto simp: hash_inv_def)
next
  case False
  with assms(1) show ?thesis by (simp add: hash_inv_def list_update_beyond)
qed

lemma hash_inv_allocate_block:
  assumes "hash_inv xxh64 bm" "allocate_block bm b = Inr bm'"
  shows "hash_inv xxh64 bm'" "BlockManager.block_size bm' = BlockManager.block_size bm"
  using hash_inv_blocks_update [OF assms(1), of b "reset (blocks bm ! b)"]
    allocate_block_result(4) [OF assms(2)]
  by (simp_all add: hash_inv_def)

lemma hash_inv_claim_block:
  assumes i: "hash_inv xxh64 bm" and c: "claim_block bm seq cm found = Inr (bm', seq', b)"
  shows "hash_inv xxh64 bm'" "BlockManager.block_size bm' = BlockManager.block_size bm"
proof -
  consider (fresh) "allocate_block bm b = Inr bm'"
    | (shared) "b \<in> used_block_ids bm"
        "bm' = bm\<lparr>blocks := (blocks bm)
                 [b := (blocks bm ! b)\<lparr>ref_count := ref_count (blocks bm ! b) + 1\<rparr>]\<rparr>"
    using c by (auto simp: claim_block_def split: if_splits list.splits sum.splits option.splits)
  then have "hash_inv xxh64 bm' \<and> BlockManager.block_size bm' = BlockManager.block_size bm"
  proof cases
    case fresh
    with i show ?thesis by (simp add: hash_inv_allocate_block)
  next
    case shared
    have "b < length (blocks bm) \<Longrightarrow> block_hash_ok xxh64 (BlockManager.block_size bm)
            ((blocks bm ! b)\<lparr>ref_count := ref_count (blocks bm ! b) + 1\<rparr>)"
      using i by (simp add: hash_inv_def)
    from hash_inv_blocks_update [OF i this] shared(2) show ?thesis
      by (simp add: hash_inv_def)
  qed
  then show "hash_inv xxh64 bm'" "BlockManager.block_size bm' = BlockManager.block_size bm"
    by simp_all
qed

lemma hash_inv_publish:
  assumes i: "hash_inv xxh64 bm"
    and l: "h \<noteq> - 1 \<Longrightarrow> length toks = BlockManager.block_size bm"
    and c: "h \<noteq> - 1 \<Longrightarrow> \<exists>tss. chain_hash xxh64 (- 1) (tss @ [toks]) = Inr h"
  shows "hash_inv xxh64 (publish bm h toks b)"
proof (cases "h = - 1")
  case True
  with i show ?thesis by (simp add: publish_def)
next
  case False
  from l c have "block_hash_ok xxh64 (BlockManager.block_size bm) (update (blocks bm ! b) h toks)"
    by (rule block_hash_ok_update)
  from hash_inv_blocks_update [OF i this] False show ?thesis
    by (simp add: hash_inv_def publish_def)
qed

lemma hash_inv_allocate_step:
  assumes i: "hash_inv xxh64 bm" and ch: "is_chain xxh64 h"
    and s: "allocate_step xxh64 (bm, seq, h, cm) j = Inr (bm', seq', h', cm')"
  shows "hash_inv xxh64 bm'" "BlockManager.block_size bm' = BlockManager.block_size bm"
    "is_chain xxh64 h'"
proof -
  from s obtain toks miss bm1 seq1 b where
    hh: "(if length toks = BlockManager.block_size bm
          then compute_hash xxh64 toks h else Inr (- 1)) = Inr h'"
    and c: "claim_block bm seq (cm \<or> miss) (hash_to_block_id bm h') = Inr (bm1, seq1, b)"
    and bm': "bm' = publish bm1 h' toks b"
    by (rule allocate_step_cases)
  note i1 = hash_inv_claim_block [OF i c]
  have l: "length toks = BlockManager.block_size bm1" if "h' \<noteq> - 1"
    using hh that i1(2) by (auto split: if_splits)
  have k: "compute_hash xxh64 toks h = Inr h'" if "h' \<noteq> - 1"
    using hh that by (auto split: if_splits)
  have "\<exists>tss. chain_hash xxh64 (- 1) (tss @ [toks]) = Inr h'" if "h' \<noteq> - 1"
    using is_chain_compute(1) [OF ch k [OF that]] .
  from hash_inv_publish [OF i1(1) l this] bm' show "hash_inv xxh64 bm'" by simp
  from i1(2) bm' show "BlockManager.block_size bm' = BlockManager.block_size bm" by simp
  show "is_chain xxh64 h'"
  proof (cases "h' = - 1")
    case True
    then show ?thesis by simp
  next
    case False
    from is_chain_compute(2) [OF ch k [OF False]] show ?thesis .
  qed
qed

lemma hash_inv_allocate_loop:
  "hash_inv xxh64 bm \<Longrightarrow> is_chain xxh64 h
     \<Longrightarrow> allocate_loop xxh64 (bm, seq, h, cm) js = Inr (bm', seq', h', cm')
     \<Longrightarrow> hash_inv xxh64 bm' \<and> BlockManager.block_size bm' = BlockManager.block_size bm"
proof (induction js arbitrary: bm seq h cm)
  case Nil
  then show ?case by simp
next
  case (Cons j js)
  from Cons.prems(3) obtain bm1 seq1 h1 cm1 where
    step: "allocate_step xxh64 (bm, seq, h, cm) j = Inr (bm1, seq1, h1, cm1)"
    and rest: "allocate_loop xxh64 (bm1, seq1, h1, cm1) js = Inr (bm', seq', h', cm')"
    by (auto split: sum.splits)
  note s = hash_inv_allocate_step [OF Cons.prems(1) Cons.prems(2) step]
  from Cons.IH [OF s(1) s(3) rest] s(2) show ?case by simp
qed

lemma hash_inv_allocate:
  assumes "hash_inv xxh64 bm" "allocate xxh64 bm seq = Inr (bm', seq')"
  shows "hash_inv xxh64 bm' \<and> BlockManager.block_size bm' = BlockManager.block_size bm"
proof -
  from assms(2) obtain n h cm where
    "allocate_loop xxh64 (bm, seq, - 1, False) [0..<n] = Inr (bm', seq', h, cm)"
    by (auto simp: allocate_def split: if_splits sum.splits)
  from hash_inv_allocate_loop [OF assms(1) is_chain_sentinel this] show ?thesis .
qed

lemma hash_inv_deallocate_loop:
  "hash_inv xxh64 bm \<Longrightarrow> deallocate_loop bm bs = Inr bm'
     \<Longrightarrow> hash_inv xxh64 bm' \<and> BlockManager.block_size bm' = BlockManager.block_size bm"
proof (induction bs arbitrary: bm)
  case Nil
  then show ?case by simp
next
  case (Cons b bs)
  have "b < length (blocks bm) \<Longrightarrow> block_hash_ok xxh64 (BlockManager.block_size bm)
          ((blocks bm ! b)\<lparr>ref_count := ref_count (blocks bm ! b) - 1\<rparr>)"
    using Cons.prems(1) by (simp add: hash_inv_def)
  from hash_inv_blocks_update [OF Cons.prems(1) this]
  have d: "hash_inv xxh64 (decr_ref bm b)"
    "BlockManager.block_size (decr_ref bm b) = BlockManager.block_size bm"
    by (simp_all add: hash_inv_def decr_ref_def)
  from Cons.prems(2) obtain bm1 where rest: "deallocate_loop bm1 bs = Inr bm'"
    and bm1: "bm1 = decr_ref bm b \<or> deallocate_block (decr_ref bm b) b = Inr bm1"
    by (auto split: if_splits sum.splits)
  from bm1 d have "hash_inv xxh64 bm1"
    "BlockManager.block_size bm1 = BlockManager.block_size bm"
    by (auto simp: hash_inv_def dest!: deallocate_block_result(4))
  with Cons.IH [OF _ rest] show ?case by simp
qed


definition seq_ok :: "nat \<Rightarrow> Sequence \<Rightarrow> bool" where
  "seq_ok bs s \<longleftrightarrow> num_tokens s = length (Sequence.token_ids s) \<and> Sequence.block_size s = bs"

lemma full_last_block:
  assumes ok: "num_tokens s = length (Sequence.token_ids s)"
    and m: "num_tokens s mod Sequence.block_size s = 0"
    and n: "num_blocks s = Inr n" and t: "block s (int n - 1) = Inr toks"
  shows "length toks = Sequence.block_size s"
proof -
  let ?bs = "Sequence.block_size s"
  from n have pos: "0 < ?bs" and nv: "n = (num_tokens s + ?bs - 1) div ?bs"
    by (auto simp: num_blocks_def split: if_splits)
  from m obtain q where q: "num_tokens s = q * ?bs"
    by (metis mod_0_imp_dvd dvd_def mult.commute)
  from pos have "q * ?bs + ?bs - 1 = q * ?bs + (?bs - 1)" by simp
  then have "(q * ?bs + ?bs - 1) div ?bs = q"
    using div_block [of "?bs - 1" ?bs q] pos by simp
  with nv q have nq: "n = q" by simp
  from t n have n1: "1 \<le> n"
    and tv: "toks = take ?bs (drop (nat (int n - 1) * ?bs) (Sequence.token_ids s))"
    by (auto simp: block_def split: if_splits)
  from n1 have k: "nat (int n - 1) = n - 1" by simp
  from n1 nq have "(q - 1) * ?bs + ?bs = q * ?bs"
    by (metis Suc_diff_1 add.commute mult_Suc One_nat_def less_eq_Suc_le)
  with ok q have "length (Sequence.token_ids s) - (q - 1) * ?bs = ?bs" by simp
  with tv k nq show ?thesis by simp
qed

lemma hash_inv_may_append:
  assumes i: "hash_inv xxh64 bm" and so: "seq_ok (BlockManager.block_size bm) seq"
    and m: "may_append xxh64 bm seq = Inr (bm', seq')"
  shows "hash_inv xxh64 bm' \<and> BlockManager.block_size bm' = BlockManager.block_size bm"
  using m
proof (cases rule: may_append_cases)
  case (opened b)
  from hash_inv_allocate_block [OF i opened(3)] show ?thesis by simp
next
  case (filled n toks prefix h)
  from so filled(1) have "num_tokens seq = length (Sequence.token_ids seq)"
    "num_tokens seq mod Sequence.block_size seq = 0"
    by (simp_all add: seq_ok_def)
  from full_last_block [OF this filled(5) filled(6)] so
  have l: "length toks = BlockManager.block_size bm" by (simp add: seq_ok_def)
  have "is_chain xxh64 prefix"
  proof (cases "1 < length (block_table seq)")
    case True
    with filled(7) have k: "last (butlast (block_table seq)) < length (blocks bm)"
      and p: "prefix = hash (blocks bm ! last (butlast (block_table seq)))"
      by (auto simp: prefix_hash_def split: if_splits)
    from i k have "block_hash_ok xxh64 (BlockManager.block_size bm)
        (blocks bm ! last (butlast (block_table seq)))"
      by (simp add: hash_inv_def)
    with p show ?thesis by (simp add: block_hash_ok_chain)
  next
    case False
    with filled(7) have "prefix = - 1" by (simp add: prefix_hash_def)
    then show ?thesis by simp
  qed
  from is_chain_compute(1) [OF this filled(8)] l
  have "block_hash_ok xxh64 (BlockManager.block_size bm)
          (update (blocks bm ! last (block_table seq)) h toks)"
    by (intro block_hash_ok_update)
  from hash_inv_blocks_update [OF i this] filled(9) show ?thesis
    by (simp add: hash_inv_def)
next
  case partial
  with i show ?thesis by simp
qed

definition hash_sys_inv :: "digest \<Rightarrow> nat \<Rightarrow> system \<Rightarrow> bool" where
  "hash_sys_inv xxh64 bs st \<longleftrightarrow>
     BlockManager.block_size (fst st) = bs \<and> hash_inv xxh64 (fst st)
     \<and> (\<forall>s \<in> set (snd st). seq_ok bs s)"

lemma seq_ok_update:
  assumes "\<forall>s \<in> set seqs. seq_ok bs s" "seq_ok bs s'"
  shows "\<forall>s \<in> set (seqs[i := s']). seq_ok bs s"
  using assms set_update_subset_insert [of seqs i s'] by auto

lemma hash_sys_inv_apply_op:
  assumes inv: "hash_sys_inv xxh64 bs st" and a: "apply_op xxh64 st x = Inr st'"
  shows "hash_sys_inv xxh64 bs st'"
proof -
  obtain bm seqs where st: "st = (bm, seqs)" by (cases st)
  from inv st have b: "BlockManager.block_size bm = bs" and h: "hash_inv xxh64 bm"
    and s: "\<forall>s \<in> set seqs. seq_ok bs s"
    by (simp_all add: hash_sys_inv_def)
  show ?thesis
  proof (cases x)
    case (New toks sp)
    with a st obtain s' where i: "Sequence_init (length seqs) (BlockManager.block_size bm) toks sp = Inr s'"
      and st': "st' = (bm, seqs @ [s'])"
      by (auto split: sum.splits)
    from i b have "seq_ok bs s'"
      by (auto simp: Sequence_init_def seq_ok_def split: if_splits)
    with b h s st' show ?thesis by (simp add: hash_sys_inv_def)
  next
    case (Allocate i)
    with a st obtain bm' s' where i: "i < length seqs"
      and al: "allocate xxh64 bm (seqs ! i) = Inr (bm', s')" and st': "st' = (bm', seqs[i := s'])"
      by (auto split: if_splits sum.splits)
    from s i have "seq_ok bs (seqs ! i)" by simp
    with allocate_seq [OF al] have "seq_ok bs s'" by (auto simp: seq_ok_def)
    from seq_ok_update [OF s this] hash_inv_allocate [OF h al] b st' show ?thesis
      by (simp add: hash_sys_inv_def)
  next
    case (Deallocate i)
    with a st obtain bm' s' where i: "i < length seqs"
      and d: "deallocate bm (seqs ! i) = Inr (bm', s')" and st': "st' = (bm', seqs[i := s'])"
      by (auto split: if_splits sum.splits)
    from s i have "seq_ok bs (seqs ! i)" by simp
    with deallocate_fields [OF d] have "seq_ok bs s'" by (simp add: seq_ok_def)
    moreover from d have "deallocate_loop bm (rev (block_table (seqs ! i))) = Inr bm'"
      by (auto simp: deallocate_def split: sum.splits)
    ultimately show ?thesis
      using seq_ok_update [OF s] hash_inv_deallocate_loop [OF h] b st'
      by (simp add: hash_sys_inv_def)
  next
    case (MayAppend i)
    with a st obtain bm' s' where i: "i < length seqs"
      and m: "may_append xxh64 bm (seqs ! i) = Inr (bm', s')" and st': "st' = (bm', seqs[i := s'])"
      by (auto split: if_splits sum.splits)
    from s i have so: "seq_ok bs (seqs ! i)" by simp
    from m so have "seq_ok bs s'"
      by (cases rule: may_append_cases) (simp_all add: seq_ok_def)
    moreover from so b have "seq_ok (BlockManager.block_size bm) (seqs ! i)" by simp
    ultimately show ?thesis
      using seq_ok_update [OF s] hash_inv_may_append [OF h _ m] b st'
      by (simp add: hash_sys_inv_def)
  next
    case (AppendToken i t)
    with a st have i: "i < length seqs" and st': "st' = (bm, seqs[i := append_token (seqs ! i) t])"
      by (auto split: if_splits)
    from s i have "seq_ok bs (seqs ! i)" by simp
    then have "seq_ok bs (append_token (seqs ! i) t)"
      by (simp add: seq_ok_def append_token_def)
    from seq_ok_update [OF s this] b h st' show ?thesis by (simp add: hash_sys_inv_def)
  qed
qed

lemma reachable_hash_sys_inv: "reachable xxh64 n bs st \<Longrightarrow> hash_sys_inv xxh64 bs st"
proof (induction rule: reachable.induct)
  case (start bm)
  then show ?case
    by (auto simp: BlockManager_init_def hash_sys_inv_def hash_inv_def block_hash_ok_def
          Block_init_def split: if_splits)
next
  case (step st x st')
  then show ?case by (auto intro: hash_sys_inv_apply_op)
qed

text \<open>
  What the code maintains.  In every reachable state, a block whose hash is not the
  sentinel holds exactly \<open>block_size\<close> token ids, and its hash is \<^verbatim>\<open>compute_hash\<close> of those
  token ids with a prefix that is the sentinel or itself a chained hash.
\<close>

lemma block_hash_is_chain:
  assumes r: "reachable xxh64 n bs (bm, seqs)" and b: "b < n"
    and h: "hash (blocks bm ! b) \<noteq> - 1"
  shows "length (Block.token_ids (blocks bm ! b)) = bs
     \<and> (\<exists>tss. chain_hash xxh64 (- 1) (tss @ [Block.token_ids (blocks bm ! b)])
                 = Inr (hash (blocks bm ! b)))
     \<and> (\<exists>prefix. is_chain xxh64 prefix
           \<and> compute_hash xxh64 (Block.token_ids (blocks bm ! b)) prefix
               = Inr (hash (blocks bm ! b)))"
proof -
  from reachable_length [OF r] b have "blocks bm ! b \<in> set (blocks bm)" by simp
  with reachable_hash_sys_inv [OF r]
  have "block_hash_ok xxh64 bs (blocks bm ! b)"
    by (auto simp: hash_sys_inv_def hash_inv_def)
  with h obtain tss where l: "length (Block.token_ids (blocks bm ! b)) = bs"
    and c: "chain_hash xxh64 (- 1) (tss @ [Block.token_ids (blocks bm ! b)])
              = Inr (hash (blocks bm ! b))"
    by (auto simp: block_hash_ok_def)
  from c obtain p where p: "chain_hash xxh64 (- 1) tss = Inr p"
    and k: "compute_hash xxh64 (Block.token_ids (blocks bm ! b)) p = Inr (hash (blocks bm ! b))"
    by (auto simp: chain_hash_snoc split: sum.splits)
  from p have "is_chain xxh64 p" unfolding is_chain_def ..
  with l c k show ?thesis by blast
qed

text \<open>
  When \<^verbatim>\<open>may_append\<close> publishes the last block of a sequence, the prefix is the hash that
  the block before it in the table (\<^verbatim>\<open>block_table[-2]\<close>) has at that moment, or the
  sentinel when the table holds one block.
\<close>

lemma last_butlast_nth:
  assumes l: "1 < length xs"
  shows "last (butlast xs) = xs ! (length xs - 2)"
proof -
  from l have ne: "butlast xs \<noteq> []" by (cases xs) auto
  from l have lt: "length (butlast xs) - 1 < length (butlast xs)" by simp
  from ne have "last (butlast xs) = butlast xs ! (length (butlast xs) - 1)"
    by (rule last_conv_nth)
  also from lt have "\<dots> = xs ! (length (butlast xs) - 1)" by (rule nth_butlast)
  also have "length (butlast xs) - 1 = length xs - 2" by simp
  finally show ?thesis .
qed

lemma may_append_links_predecessor:
  assumes m: "may_append xxh64 bm seq = Inr (bm', seq')"
    and z: "num_tokens seq mod BlockManager.block_size bm = 0"
  shows "\<exists>n toks. num_blocks seq = Inr n \<and> block seq (int n - 1) = Inr toks
      \<and> Block.token_ids (blocks bm' ! last (block_table seq)) = toks
      \<and> compute_hash xxh64 toks
            (if 1 < length (block_table seq)
             then hash (blocks bm ! (block_table seq ! (length (block_table seq) - 2)))
             else - 1)
          = Inr (hash (blocks bm' ! last (block_table seq)))"
proof -
  let ?bs = "BlockManager.block_size bm"
  let ?t = "block_table seq"
  from m have ne: "?t \<noteq> []"
    by (cases "?t = []") (simp_all add: may_append_def)
  from m ne have lt: "last ?t < length (blocks bm)"
    by (cases "last ?t < length (blocks bm)") (simp_all add: may_append_def)
  from m ne lt have bs: "?bs \<noteq> 0"
    by (cases "?bs = 0") (simp_all add: may_append_def)
  from m ne lt bs z have h: "hash (blocks bm ! last ?t) = - 1"
    by (cases "hash (blocks bm ! last ?t) = - 1") (simp_all add: may_append_def)
  from m ne lt bs z h obtain n where n: "num_blocks seq = Inr n"
    by (cases "num_blocks seq") (simp_all add: may_append_def)
  from m ne lt bs z h n obtain toks where k: "block seq (int n - 1) = Inr toks"
    by (cases "block seq (int n - 1)") (simp_all add: may_append_def)
  from m ne lt bs z h n k obtain prefix where p: "prefix_hash bm ?t = Inr prefix"
    by (cases "prefix_hash bm ?t") (simp_all add: may_append_def)
  from m ne lt bs z h n k p obtain hv where c: "compute_hash xxh64 toks prefix = Inr hv"
    by (cases "compute_hash xxh64 toks prefix") (simp_all add: may_append_def)
  from m ne lt bs z h n k p c
  have b: "blocks bm' = (blocks bm)[last ?t := update (blocks bm ! last ?t) hv toks]"
    by (auto simp add: may_append_def)
  from p have q: "prefix = (if 1 < length ?t then hash (blocks bm ! (?t ! (length ?t - 2))) else - 1)"
    by (auto simp: prefix_hash_def last_butlast_nth split: if_splits)
  from b lt have "Block.token_ids (blocks bm' ! last ?t) = toks" "hash (blocks bm' ! last ?t) = hv"
    by (simp_all add: update_def)
  with n k c q show ?thesis by simp
qed

text \<open>A sequence of 7 tokens is allocated (blocks 0 and 1), grows by the token 8, and
  \<^verbatim>\<open>may_append\<close> publishes block 1 under the hash of [5,6,7,8] chained to the hash of
  block 0.\<close>

lemma may_append_second_block_run:
  "(case Sequence_init 0 4 [1, 2, 3, 4, 5, 6, 7] default_params of
      Inl e \<Rightarrow> None
    | Inr s0 \<Rightarrow>
   (case allocate XXH64 bm_fresh8 s0 of
      Inl e \<Rightarrow> None
    | Inr (bm1, s1) \<Rightarrow>
   (case may_append XXH64 bm1 (append_token s1 8) of
      Inl e \<Rightarrow> None
    | Inr (bm2, s2) \<Rightarrow>
        Some (block_table s2, map hash (take 2 (blocks bm1)), map hash (take 2 (blocks bm2))))))
   = Some ([0, 1], [8356527653647720045, - 1], [8356527653647720045, 610383040053763902])"
  by (simp add: bm_fresh8_def eval_defs hash_1234 hash_1234_5678)

text \<open>
  Claim C5 against the code.  The claim says that the hash of every hashed block is the
  chained hash of its token ids with the hash of the block before it in the table of the
  sequence that owns it, or with the sentinel for a first block.  In the state reached by
  the run \<open>double_hit_ops\<close> block 1 is hashed and the only table that holds it is [1, 1],
  at both positions.  Its hash is not \<^verbatim>\<open>compute_hash\<close> of its token ids with the sentinel
  (position 0, a first block), nor with the hash of the block before it (position 1, where
  the block before it is block 1 itself).  The engine reaches the same state by \<^verbatim>\<open>add\<close>,
  \<^verbatim>\<open>schedule\<close> and \<^verbatim>\<open>postprocess\<close> alone.
\<close>

theorem hash_validity_double_hit:
  "(\<exists>bm seqs. reachable XXH64 2 4 (bm, seqs)
      \<and> map block_table seqs = [[], [], [1, 1]]
      \<and> hash (blocks bm ! 1) \<noteq> - 1
      \<and> length (Block.token_ids (blocks bm ! 1)) = 4
      \<and> compute_hash XXH64 (Block.token_ids (blocks bm ! 1)) (- 1)
            \<noteq> Inr (hash (blocks bm ! 1))
      \<and> compute_hash XXH64 (Block.token_ids (blocks bm ! 1)) (hash (blocks bm ! 1))
            \<noteq> Inr (hash (blocks bm ! 1)))
   \<and> (\<exists>sch. engine_double_hit XXH64 = Inr (sch, [2], True)
      \<and> block_table (heap sch 0) = [] \<and> block_table (heap sch 1) = []
      \<and> block_table (heap sch 2) = [1, 1]
      \<and> hash (blocks (block_manager sch) ! 1) \<noteq> - 1
      \<and> compute_hash XXH64 (Block.token_ids (blocks (block_manager sch) ! 1)) (- 1)
            \<noteq> Inr (hash (blocks (block_manager sch) ! 1))
      \<and> compute_hash XXH64 (Block.token_ids (blocks (block_manager sch) ! 1))
              (hash (blocks (block_manager sch) ! 1))
            \<noteq> Inr (hash (blocks (block_manager sch) ! 1)))"
proof
  from double_hit_state obtain bm seqs where
    f: "reachable XXH64 2 4 (bm, seqs)" "map block_table seqs = [[], [], [1, 1]]"
      "hash (blocks bm ! 1) = 814879221424932033"
      "Block.token_ids (blocks bm ! 1) = [1, 2, 3, 4]"
    by auto
  then show "\<exists>bm seqs. reachable XXH64 2 4 (bm, seqs)
      \<and> map block_table seqs = [[], [], [1, 1]]
      \<and> hash (blocks bm ! 1) \<noteq> - 1
      \<and> length (Block.token_ids (blocks bm ! 1)) = 4
      \<and> compute_hash XXH64 (Block.token_ids (blocks bm ! 1)) (- 1)
            \<noteq> Inr (hash (blocks bm ! 1))
      \<and> compute_hash XXH64 (Block.token_ids (blocks bm ! 1)) (hash (blocks bm ! 1))
            \<noteq> Inr (hash (blocks bm ! 1))"
    by (intro exI [of _ bm] exI [of _ seqs]) (simp add: hash_1234 hash_1234_after)
next
  from engine_double_hit_state obtain sch where
    f: "engine_double_hit XXH64 = Inr (sch, [2], True)"
      "block_table (heap sch 0) = []" "block_table (heap sch 1) = []"
      "block_table (heap sch 2) = [1, 1]"
      "hash (blocks (block_manager sch) ! 1) = 814879221424932033"
      "Block.token_ids (blocks (block_manager sch) ! 1) = [1, 2, 3, 4]"
    by auto
  then show "\<exists>sch. engine_double_hit XXH64 = Inr (sch, [2], True)
      \<and> block_table (heap sch 0) = [] \<and> block_table (heap sch 1) = []
      \<and> block_table (heap sch 2) = [1, 1]
      \<and> hash (blocks (block_manager sch) ! 1) \<noteq> - 1
      \<and> compute_hash XXH64 (Block.token_ids (blocks (block_manager sch) ! 1)) (- 1)
            \<noteq> Inr (hash (blocks (block_manager sch) ! 1))
      \<and> compute_hash XXH64 (Block.token_ids (blocks (block_manager sch) ! 1))
              (hash (blocks (block_manager sch) ! 1))
            \<noteq> Inr (hash (blocks (block_manager sch) ! 1))"
    by (intro exI [of _ sch]) (simp add: hash_1234 hash_1234_after)
qed

text \<open>The chain invariant holds of block 1 in that state: its hash is the chained hash
  of the two token blocks of Q.\<close>

lemma block_hash_is_chain_double_hit:
  "\<exists>bm seqs. reachable XXH64 2 4 (bm, seqs) \<and> (1::nat) < 2
      \<and> hash (blocks bm ! 1) \<noteq> - 1
      \<and> length (Block.token_ids (blocks bm ! 1)) = 4
      \<and> (\<exists>tss. chain_hash XXH64 (- 1) (tss @ [Block.token_ids (blocks bm ! 1)])
                  = Inr (hash (blocks bm ! 1)))"
proof -
  from double_hit_state obtain bm seqs where
    r: "reachable XXH64 2 4 (bm, seqs)"
    and h: "hash (blocks bm ! 1) = 814879221424932033"
    by auto
  from h have ne: "hash (blocks bm ! 1) \<noteq> - 1" by simp
  from block_hash_is_chain [OF r _ ne] r ne show ?thesis
    by (intro exI [of _ bm] exI [of _ seqs]) simp
qed


section \<open>Cache hits in \<^verbatim>\<open>allocate\<close>\<close>











section \<open>Admission in the prefill phase\<close>

text \<open>The scheduler after the head \<open>r\<close> of \<^verbatim>\<open>waiting\<close> was admitted with the result
  \<open>(bm', seq')\<close> of \<^verbatim>\<open>allocate\<close>.\<close>

definition admitted :: "Scheduler \<Rightarrow> nat \<Rightarrow> BlockManager \<Rightarrow> Sequence \<Rightarrow> Scheduler" where
  "admitted sch r bm' seq' =
     sch\<lparr>block_manager := bm',
         heap := (heap sch)(r := seq'\<lparr>status := RUNNING\<rparr>),
         waiting := tl (waiting sch),
         running := running sch @ [r]\<rparr>"

lemma prefill_loop_cases:
  assumes "prefill_loop xxh64 sch scheduled num_seqs nbt = Inr res"
  obtains (stop) "res = (sch, scheduled, num_seqs, nbt)"
  | (admit) r rest bm' seq' where
      "waiting sch = r # rest"
      "allocate xxh64 (block_manager sch) (heap sch r) = Inr (bm', seq')"
      "prefill_loop xxh64 (admitted sch r bm' seq') (scheduled @ [r]) (num_seqs + 1)
         (nbt + int (num_tokens seq') - int (num_cached_tokens seq')) = Inr res"
proof (cases "waiting sch")
  case Nil
  with assms have "res = (sch, scheduled, num_seqs, nbt)"
    by (simp add: prefill_loop.simps [of xxh64 sch])
  then show thesis by (rule stop)
next
  case (Cons r rest)
  show thesis
  proof (cases "int num_seqs < max_num_seqs sch
      \<and> \<not> nbt + int (num_tokens (heap sch r)) > max_num_batched_tokens sch
      \<and> can_allocate (block_manager sch) (heap sch r) = Inr True")
    case False
    with assms Cons have "res = (sch, scheduled, num_seqs, nbt)"
      by (auto simp: prefill_loop.simps [of xxh64 sch] split: if_splits sum.splits)
    then show thesis by (rule stop)
  next
    case True
    with assms Cons obtain bm' seq' where
      a: "allocate xxh64 (block_manager sch) (heap sch r) = Inr (bm', seq')"
      by (cases "allocate xxh64 (block_manager sch) (heap sch r)")
         (auto simp: prefill_loop.simps [of xxh64 sch])
    with assms Cons True
    have "prefill_loop xxh64 (admitted sch r bm' seq') (scheduled @ [r]) (num_seqs + 1)
         (nbt + int (num_tokens seq') - int (num_cached_tokens seq')) = Inr res"
      by (simp add: prefill_loop.simps [of xxh64 sch] admitted_def)
    with Cons a show thesis by (rule admit)
  qed
qed

lemma prefill_loop_batch:
  "prefill_loop xxh64 sch scheduled num_seqs nbt = Inr (sch', scheduled', num_seqs', nbt')
     \<Longrightarrow> \<forall>r \<in> set scheduled. status (heap sch r) = RUNNING
     \<Longrightarrow> \<exists>batch. scheduled' = scheduled @ batch
            \<and> waiting sch = batch @ waiting sch'
            \<and> running sch' = running sch @ batch
            \<and> num_seqs' = num_seqs + length batch
            \<and> (\<forall>r \<in> set scheduled'. status (heap sch' r) = RUNNING)"
proof (induction "length (waiting sch)" arbitrary: sch scheduled num_seqs nbt)
  case 0
  from "0.prems"(1) show ?case
  proof (cases rule: prefill_loop_cases)
    case stop
    with "0.prems"(2) show ?thesis by simp
  next
    case (admit r rest bm' seq')
    with "0.hyps" show ?thesis by simp
  qed
next
  case (Suc k)
  from Suc.prems(1) show ?case
  proof (cases rule: prefill_loop_cases)
    case stop
    with Suc.prems(2) show ?thesis by simp
  next
    case (admit r rest bm' seq')
    let ?next = "admitted sch r bm' seq'"
    from admit(1) Suc.hyps(2) have k: "k = length (waiting ?next)"
      by (simp add: admitted_def)
    from Suc.prems(2) have "\<forall>x \<in> set (scheduled @ [r]). status (heap ?next x) = RUNNING"
      by (simp add: admitted_def)
    from Suc.hyps(1) [OF k admit(3) this] obtain batch where
      b: "scheduled' = (scheduled @ [r]) @ batch"
        "waiting ?next = batch @ waiting sch'"
        "running sch' = running ?next @ batch"
        "num_seqs' = num_seqs + 1 + length batch"
        "\<forall>r \<in> set scheduled'. status (heap sch' r) = RUNNING"
      by blast
    with admit(1) show ?thesis
      by (intro exI [of _ "r # batch"]) (simp add: admitted_def)
  qed
qed


text \<open>
  Claim C8.  With a sequence \<open>r\<close> at the head of \<^verbatim>\<open>waiting\<close> and room for another sequence:
  if \<open>num_batched_tokens\<close> plus the full length of the sequence exceeds
  \<^verbatim>\<open>max_num_batched_tokens\<close>, the prefill loop ends with the scheduler unchanged (the
  sequence is not popped); if it does not, and \<^verbatim>\<open>can_allocate\<close> holds and \<^verbatim>\<open>allocate\<close>
  returns, the loop goes on with the sequence moved from \<^verbatim>\<open>waiting\<close> to the end of
  \<^verbatim>\<open>running\<close>, appended to the batch, its status Running, and \<open>num_batched_tokens\<close> raised
  by its length minus its \<^verbatim>\<open>num_cached_tokens\<close> only.  A batch that \<^verbatim>\<open>schedule\<close> returns
  with \<open>is_prefill\<close> true is a prefix of the old \<^verbatim>\<open>waiting\<close>, was appended to \<^verbatim>\<open>running\<close>, and
  holds Running sequences only.
\<close>

theorem prefill_admission:
  assumes w: "waiting sch = r # rest" and n: "int num_seqs < max_num_seqs sch"
  shows "(max_num_batched_tokens sch < nbt + int (num_tokens (heap sch r))
            \<longrightarrow> prefill_loop xxh64 sch scheduled num_seqs nbt
                  = Inr (sch, scheduled, num_seqs, nbt))
     \<and> (nbt + int (num_tokens (heap sch r)) \<le> max_num_batched_tokens sch
          \<and> can_allocate (block_manager sch) (heap sch r) = Inr True
          \<and> allocate xxh64 (block_manager sch) (heap sch r) = Inr (bm', seq')
            \<longrightarrow> prefill_loop xxh64 sch scheduled num_seqs nbt
                  = prefill_loop xxh64 (admitted sch r bm' seq') (scheduled @ [r]) (num_seqs + 1)
                      (nbt + int (num_tokens (heap sch r)) - int (num_cached_tokens seq'))
                \<and> waiting (admitted sch r bm' seq') = rest
                \<and> running (admitted sch r bm' seq') = running sch @ [r]
                \<and> status (heap (admitted sch r bm' seq') r) = RUNNING)
     \<and> (schedule xxh64 sch = Inr (sch', batch, True)
            \<longrightarrow> batch \<noteq> [] \<and> waiting sch = batch @ waiting sch'
                \<and> running sch' = running sch @ batch
                \<and> (\<forall>x \<in> set batch. status (heap sch' x) = RUNNING))"
proof (intro conjI impI)
  assume "max_num_batched_tokens sch < nbt + int (num_tokens (heap sch r))"
  with w n show "prefill_loop xxh64 sch scheduled num_seqs nbt
      = Inr (sch, scheduled, num_seqs, nbt)"
    by (simp add: prefill_loop.simps [of xxh64 sch])
next
  assume a: "nbt + int (num_tokens (heap sch r)) \<le> max_num_batched_tokens sch
          \<and> can_allocate (block_manager sch) (heap sch r) = Inr True
          \<and> allocate xxh64 (block_manager sch) (heap sch r) = Inr (bm', seq')"
  then have "num_tokens seq' = num_tokens (heap sch r)"
    using allocate_seq [of xxh64 "block_manager sch" "heap sch r" bm' seq'] by auto
  with a w n show "prefill_loop xxh64 sch scheduled num_seqs nbt
      = prefill_loop xxh64 (admitted sch r bm' seq') (scheduled @ [r]) (num_seqs + 1)
          (nbt + int (num_tokens (heap sch r)) - int (num_cached_tokens seq'))"
    by (simp add: prefill_loop.simps [of xxh64 sch] admitted_def)
  from w show "waiting (admitted sch r bm' seq') = rest"
    "running (admitted sch r bm' seq') = running sch @ [r]"
    "status (heap (admitted sch r bm' seq') r) = RUNNING"
    by (simp_all add: admitted_def)
next
  assume s: "schedule xxh64 sch = Inr (sch', batch, True)"
  then have p: "\<exists>k m. prefill_loop xxh64 sch [] 0 0 = Inr (sch', batch, k, m)" and ne: "batch \<noteq> []"
    by (auto simp: schedule_def split: sum.splits if_splits)
  from ne show "batch \<noteq> []" .
  from p obtain k m where "prefill_loop xxh64 sch [] 0 0 = Inr (sch', batch, k, m)" by blast
  from prefill_loop_batch [OF this]
  show "waiting sch = batch @ waiting sch'" "running sch' = running sch @ batch"
    "\<forall>x \<in> set batch. status (heap sch' x) = RUNNING"
    by auto
qed

definition seq_A :: Sequence where
  "seq_A =
     \<lparr>seq_id = 0, status = WAITING, token_ids = [1, 2, 3, 4, 5, 6, 7, 8, 9], last_token = 9,
      num_tokens = 9, num_prompt_tokens = 9, num_cached_tokens = 0, block_table = [],
      max_tokens = 64, ignore_eos = False, block_size = 4\<rparr>"

definition seq_B :: Sequence where
  "seq_B =
     \<lparr>seq_id = 1, status = WAITING, token_ids = [1, 2, 3, 4, 5, 6, 7, 8, 10], last_token = 10,
      num_tokens = 9, num_prompt_tokens = 9, num_cached_tokens = 0, block_table = [],
      max_tokens = 64, ignore_eos = False, block_size = 4\<rparr>"

definition sch_two :: Scheduler where
  "sch_two =
     add (add \<lparr>max_num_seqs = 512, max_num_batched_tokens = 16384, eos = 2,
               block_manager = bm_fresh8, waiting = [], running = [],
               heap = (\<lambda>_. seq_A)\<rparr> seq_A) seq_B"

lemma two_requests_run:
  "\<exists>bmA sA bmB sB sch'.
      allocate XXH64 bm_fresh8 seq_A = Inr (bmA, sA)
      \<and> num_cached_tokens sA = 0
      \<and> can_allocate bmA seq_B = Inr True
      \<and> allocate XXH64 bmA seq_B = Inr (bmB, sB)
      \<and> num_cached_tokens sB = 8
      \<and> schedule XXH64 sch_two = Inr (sch', [0, 1], True)
      \<and> waiting sch' = [] \<and> running sch' = [0, 1]"
  by (simp add: sch_two_def seq_A_def seq_B_def bm_fresh8_def add_def schedule_def
        prefill_loop.simps eval_defs hash_1234 hash_1234_5678)

text \<open>
  The hypotheses of claim C8 hold in the prefix-sharing example when B is at the head
  of \<^verbatim>\<open>waiting\<close> after A was admitted: with 9 tokens batched B is admitted and the count
  becomes 10 (B has 9 tokens, 8 of them cached); with 16380 tokens batched it is
  rejected, since 16380 + 9 exceeds 16384.
\<close>

theorem prefill_admission_witness:
  "\<exists>sch1 bmB sB sch'.
      waiting sch1 = [1] \<and> int 1 < max_num_seqs sch1
      \<and> 9 + int (num_tokens (heap sch1 1)) \<le> max_num_batched_tokens sch1
      \<and> can_allocate (block_manager sch1) (heap sch1 1) = Inr True
      \<and> allocate XXH64 (block_manager sch1) (heap sch1 1) = Inr (bmB, sB)
      \<and> prefill_loop XXH64 sch1 [0] 1 9
          = prefill_loop XXH64 (admitted sch1 1 bmB sB) [0, 1] 2 10
      \<and> status (heap (admitted sch1 1 bmB sB) 1) = RUNNING
      \<and> max_num_batched_tokens sch1 < 16380 + int (num_tokens (heap sch1 1))
      \<and> prefill_loop XXH64 sch1 [0] 1 16380 = Inr (sch1, [0], 1, 16380)
      \<and> schedule XXH64 sch_two = Inr (sch', [0, 1], True)
      \<and> waiting sch_two = [0, 1] @ waiting sch'
      \<and> running sch' = running sch_two @ [0, 1]"
proof -
  from two_requests_run obtain bmA sA bmB sB sch' where
    a: "allocate XXH64 bm_fresh8 seq_A = Inr (bmA, sA)"
    and cb: "can_allocate bmA seq_B = Inr True"
    and b: "allocate XXH64 bmA seq_B = Inr (bmB, sB)"
    and c: "num_cached_tokens sB = 8"
    and s: "schedule XXH64 sch_two = Inr (sch', [0, 1], True)"
    by blast
  let ?sch1 = "admitted sch_two 0 bmA sA"
  have w: "waiting ?sch1 = 1 # []"
    by (simp add: admitted_def sch_two_def add_def seq_A_def seq_B_def)
  have n: "int 1 < max_num_seqs ?sch1"
    by (simp add: admitted_def sch_two_def add_def)
  have h: "heap ?sch1 1 = seq_B" "block_manager ?sch1 = bmA"
    "max_num_batched_tokens ?sch1 = 16384"
    by (simp_all add: admitted_def sch_two_def add_def seq_A_def seq_B_def)
  have nt: "num_tokens seq_B = 9" by (simp add: seq_B_def)
  have w2: "waiting sch_two = 0 # [1]" and n2: "int 0 < max_num_seqs sch_two"
    by (simp_all add: sch_two_def add_def seq_A_def seq_B_def)
  from prefill_admission [of ?sch1 1 "[]" 1 9 XXH64 "[0]" bmB sB, OF w n] h nt cb b c
  have adm: "prefill_loop XXH64 ?sch1 [0] 1 9
          = prefill_loop XXH64 (admitted ?sch1 1 bmB sB) [0, 1] 2 10
      \<and> status (heap (admitted ?sch1 1 bmB sB) 1) = RUNNING"
    by (simp add: numeral_2_eq_2)
  from prefill_admission [of ?sch1 1 "[]" 1 16380 XXH64 "[0]", OF w n] h nt
  have rej: "prefill_loop XXH64 ?sch1 [0] 1 16380 = Inr (?sch1, [0], 1, 16380)"
    by simp
  from prefill_admission [of sch_two 0 "[1]" 0 0 XXH64 "[]" bmB sB sch' "[0, 1]", OF w2 n2] s
  have sched: "waiting sch_two = [0, 1] @ waiting sch'" "running sch' = running sch_two @ [0, 1]"
    by simp_all
  from w n h nt cb b adm rej s sched show ?thesis
    by (intro exI [of _ ?sch1] exI [of _ bmB] exI [of _ sB] exI [of _ sch']) (simp add: numeral_2_eq_2)
qed

end
